theory Spec2Isabelle
  imports Main "HOL-Library.Word" "HOL-Library.Multiset"
begin

unbundle bit_operations_syntax

section \<open>JavaScript numbers, as far as the VLSM utilities use them\<close>

text \<open>
  The utilities compute with JavaScript numbers. Every number that occurs is either an
  integer of magnitude far below \<open>2 ^ 53\<close> (where double arithmetic is exact) or
  \<open>NaN\<close>, which \<open>parseInt\<close> returns for text without digits. The one place where
  the model is not exact is \<open>parseInt\<close> on digit strings denoting \<open>2 ^ 53\<close> or more,
  where JavaScript rounds to a double and the model keeps the integer; rounding is
  monotone, so comparisons against small constants agree.

  Numbers that are not integers (fractions, infinities) can only come in as host
  counts, where \<open>Number.isInteger\<close> rejects them as it rejects \<open>NaN\<close>; \<open>NaN\<close>
  stands for them there.

  The bitwise operators convert their operands to 32 bits first (\<open>NaN\<close> becomes 0),
  take the shift count modulo 32, and return a signed (\<open><<\<close>, \<open>&\<close>, \<open>~\<close>) or an
  unsigned (\<open>>>>\<close>) 32-bit integer.
\<close>

datatype jsnum = Num int | NaN

fun to_word :: "jsnum \<Rightarrow> 32 word" where
  "to_word (Num n) = word_of_int n"
| "to_word NaN = 0"

definition shift_count :: "jsnum \<Rightarrow> nat" where
  "shift_count n = unat (to_word n AND 31)"

definition js_shl :: "jsnum \<Rightarrow> jsnum \<Rightarrow> int" where
  "js_shl a n = sint (push_bit (shift_count n) (to_word a))"

definition js_ushr :: "jsnum \<Rightarrow> jsnum \<Rightarrow> int" where
  "js_ushr a n = uint (drop_bit (shift_count n) (to_word a))"

definition js_and :: "jsnum \<Rightarrow> jsnum \<Rightarrow> int" where
  "js_and a b = sint (to_word a AND to_word b)"

definition js_not :: "jsnum \<Rightarrow> int" where
  "js_not a = sint (NOT (to_word a))"

fun js_add :: "jsnum \<Rightarrow> jsnum \<Rightarrow> jsnum" where
  "js_add (Num a) (Num b) = Num (a + b)"
| "js_add _ _ = NaN"

fun js_sub :: "jsnum \<Rightarrow> jsnum \<Rightarrow> jsnum" where
  "js_sub (Num a) (Num b) = Num (a - b)"
| "js_sub _ _ = NaN"

fun js_lt :: "jsnum \<Rightarrow> jsnum \<Rightarrow> bool" where
  "js_lt (Num a) (Num b) = (a < b)"
| "js_lt _ _ = False"

definition js_gt :: "jsnum \<Rightarrow> jsnum \<Rightarrow> bool" where
  "js_gt a b = js_lt b a"

text \<open>
  \<open>2 ** e\<close>. The source only evaluates it at \<open>e = 32 - prefix\<close> with the prefix an
  integer in \<open>[0, 32]\<close> or \<open>NaN\<close>, so the exponent is never negative.
\<close>

fun js_pow2 :: "jsnum \<Rightarrow> jsnum" where
  "js_pow2 (Num e) = Num (2 ^ nat e)"
| "js_pow2 NaN = NaN"

section \<open>Strings: split, join, parseInt, number to text\<close>

text \<open>\<open>s.split(d)\<close> for a one-character separator: never empty, \<open>''''\<close> gives \<open>['''']\<close>.\<close>

fun split :: "char \<Rightarrow> string \<Rightarrow> string list" where
  "split d [] = [[]]"
| "split d (c # cs) =
     (if c = d then [] # split d cs
      else (c # hd (split d cs)) # tl (split d cs))"

fun join :: "string \<Rightarrow> string list \<Rightarrow> string" where
  "join d [] = []"
| "join d [x] = x"
| "join d (x # y # ys) = x @ d @ join d (y # ys)"

text \<open>
  A \<open>char\<close> is a code unit below 256. The white space \<open>parseInt\<close> skips there is tab,
  line feed, vertical tab, form feed, carriage return, space and the no-break space
  U+00A0; the white space of JavaScript beyond code unit 255 is outside the model.
\<close>

definition is_space :: "char \<Rightarrow> bool" where
  "is_space c = (of_char c \<in> {9, 10, 11, 12, 13, 32, 160 :: nat})"

definition is_digit :: "char \<Rightarrow> bool" where
  "is_digit c = (48 \<le> (of_char c :: nat) \<and> (of_char c :: nat) \<le> 57)"

definition digit_val :: "char \<Rightarrow> nat" where
  "digit_val c = of_char c - 48"

definition digits_val :: "string \<Rightarrow> nat" where
  "digits_val ds = foldl (\<lambda>a c. 10 * a + digit_val c) 0 ds"

text \<open>
  \<open>parseInt(s, 10)\<close>: leading white space is skipped, one sign is accepted, the
  longest run of decimal digits is read and whatever follows is ignored; without a
  digit the result is \<open>NaN\<close>. The result is exact where the digits denote less than
  \<open>2 ^ 53\<close>; from there on JavaScript rounds to a double and the model does not.
\<close>

definition parseInt :: "string \<Rightarrow> jsnum" where
  "parseInt s =
     (let t = dropWhile is_space s;
          neg = (t \<noteq> [] \<and> hd t = CHR ''-'');
          u = (if t \<noteq> [] \<and> (hd t = CHR ''-'' \<or> hd t = CHR ''+'') then tl t else t);
          ds = takeWhile is_digit u
      in if ds = [] then NaN
         else Num ((if neg then - 1 else 1) * int (digits_val ds)))"

text \<open>The decimal text of a number, as \<open>join\<close> and template strings produce it.\<close>

fun dec :: "nat \<Rightarrow> string" where
  "dec n = (if n < 10 then [char_of (48 + n)] else dec (n div 10) @ [char_of (48 + n mod 10)])"

definition num_to_string :: "int \<Rightarrow> string" where
  "num_to_string n = (if n < 0 then CHR ''-'' # dec (nat (- n)) else dec (nat n))"

section \<open>The VLSM utility functions\<close>

datatype error =
    InvalidCidr                        \<comment> \<open>\<open>Invalid CIDR\<close>\<close>
  | InvalidPrefix                      \<comment> \<open>\<open>Invalid prefix\<close>\<close>
  | InvalidHostCount                   \<comment> \<open>\<open>hosts must be non-negative integer\<close>,
                                           \<open>host requirements must be positive integers\<close>\<close>
  | UnsatisfiableHostCount             \<comment> \<open>\<open>cannot satisfy host count\<close>\<close>
  | InsufficientAddressSpace int jsnum \<comment> \<open>\<open>Requirements need ... addresses but primary has ...\<close>\<close>
  | NotEnoughSpace int nat int         \<comment> \<open>\<open>Cannot allocate subnet for ...: not enough space after alignment\<close>\<close>
  | OutsidePrimary                     \<comment> \<open>\<open>Allocated network falls outside primary\<close>\<close>
  | Overlap string string              \<comment> \<open>\<open>Overlap between ... and ...\<close>\<close>

definition ipToInt :: "string \<Rightarrow> int" where
  "ipToInt ip =
     js_ushr (foldl (\<lambda>acc octet. js_add (Num (js_shl acc (Num 8))) (parseInt octet))
                (Num 0) (split CHR ''.'' ip))
             (Num 0)"

definition intToIp :: "int \<Rightarrow> string" where
  "intToIp n =
     join ''.'' (map (\<lambda>shift. num_to_string (js_and (Num (js_ushr (Num n) (Num shift))) (Num 255)))
                   [24, 16, 8, 0])"

text \<open>The local \<open>mask\<close> of \<open>maskFromPrefix\<close>, \<open>wildcardFromPrefix\<close> and \<open>parseCidr\<close>.\<close>

definition maskInt :: "jsnum \<Rightarrow> int" where
  "maskInt prefix =
     (if prefix = Num 0 then 0
      else js_ushr (Num (js_shl (Num 4294967295) (js_sub (Num 32) prefix))) (Num 0))"

definition wildInt :: "jsnum \<Rightarrow> int" where
  "wildInt prefix = js_ushr (Num (js_not (Num (maskInt prefix)))) (Num 0)"

definition maskFromPrefix :: "jsnum \<Rightarrow> string" where
  "maskFromPrefix prefix = intToIp (maskInt prefix)"

definition wildcardFromPrefix :: "jsnum \<Rightarrow> string" where
  "wildcardFromPrefix prefix = intToIp (wildInt prefix)"

record primary =
  networkInt :: int
  primary_prefix :: jsnum
  primary_total :: jsnum
  broadcastInt :: int

definition parseCidr :: "string \<Rightarrow> error + primary" where
  "parseCidr cidr =
     (case split CHR ''/'' cidr of
        [ip, ptext] \<Rightarrow>
          (let prefix = parseInt ptext in
           if js_lt prefix (Num 0) \<or> js_gt prefix (Num 32) then Inl InvalidPrefix
           else
             let netInt = js_and (Num (ipToInt ip)) (Num (maskInt prefix));
                 tot = js_pow2 (js_sub (Num 32) prefix);
                 bcast = js_ushr (js_sub (js_add (Num netInt) tot) (Num 1)) (Num 0)
             in Inr \<lparr>networkInt = netInt, primary_prefix = prefix,
                     primary_total = tot, broadcastInt = bcast\<rparr>)
      | _ \<Rightarrow> Inl InvalidCidr)"

text \<open>The usable-host capacity the scan of \<open>calcMinPrefixForHosts\<close> computes for a prefix.\<close>

definition usable_of :: "nat \<Rightarrow> int" where
  "usable_of prefix = (if prefix = 32 then 1 else if prefix = 31 then 0 else 2 ^ (32 - prefix) - 2)"

text \<open>The \<open>for\<close> loop of \<open>calcMinPrefixForHosts\<close>, from the current prefix down to 0.\<close>

fun scan :: "int \<Rightarrow> nat \<Rightarrow> error + nat" where
  "scan hosts 0 = (if usable_of 0 \<ge> hosts then Inr 0 else Inl UnsatisfiableHostCount)"
| "scan hosts (Suc p) = (if usable_of (Suc p) \<ge> hosts then Inr (Suc p) else scan hosts p)"

fun calcMinPrefixForHosts :: "jsnum \<Rightarrow> error + nat" where
  "calcMinPrefixForHosts NaN = Inl InvalidHostCount"
| "calcMinPrefixForHosts (Num hosts) =
     (if hosts < 0 then Inl InvalidHostCount
      else if hosts = 0 then Inr 32
      else scan hosts 32)"

record subnet =
  network :: string
  prefix :: nat
  cidr :: string
  subnet_mask :: string
  wildcard_mask :: string
  total_addresses :: int
  usable_hosts :: int
  requested_hosts :: int
  first_usable :: string
  last_usable :: string
  broadcast :: string
  wasted_addresses :: int

definition subnetInfo :: "int \<Rightarrow> nat \<Rightarrow> int \<Rightarrow> subnet" where
  "subnetInfo netInt pfx requestedHosts =
     (let tot = 2 ^ (32 - pfx);
          bcast = js_ushr (Num (netInt + tot - 1)) (Num 0);
          usable = (if pfx = 32 then 1 else if pfx = 31 then 0 else tot - 2);
          first = (if pfx = 32 \<or> pfx = 31 then intToIp netInt
                   else intToIp (js_ushr (Num (netInt + 1)) (Num 0)));
          last = (if pfx = 32 then intToIp netInt
                  else if pfx = 31 then intToIp bcast
                  else intToIp (js_ushr (Num (bcast - 1)) (Num 0)));
          bcast_text = (if pfx = 32 then intToIp netInt else intToIp bcast)
      in \<lparr>network = intToIp netInt,
          prefix = pfx,
          cidr = intToIp netInt @ ''/'' @ num_to_string (int pfx),
          subnet_mask = maskFromPrefix (Num (int pfx)),
          wildcard_mask = wildcardFromPrefix (Num (int pfx)),
          total_addresses = tot,
          usable_hosts = usable,
          requested_hosts = requestedHosts,
          first_usable = first,
          last_usable = last,
          broadcast = bcast_text,
          wasted_addresses = tot - requestedHosts\<rparr>)"

record requirement =
  requested :: int
  req_prefix :: nat
  block :: int

text \<open>The callback of \<open>hostRequirements.slice().map\<close>; the first failure aborts the call.\<close>

definition resolve :: "jsnum \<Rightarrow> error + requirement" where
  "resolve h =
     (case h of
        NaN \<Rightarrow> Inl InvalidHostCount
      | Num n \<Rightarrow>
          if n \<le> 0 then Inl InvalidHostCount
          else (case calcMinPrefixForHosts h of
                  Inl e \<Rightarrow> Inl e
                | Inr p \<Rightarrow> Inr \<lparr>requested = n, req_prefix = p, block = 2 ^ (32 - p)\<rparr>))"

fun resolve_all :: "jsnum list \<Rightarrow> error + requirement list" where
  "resolve_all [] = Inr []"
| "resolve_all (h # hs) =
     (case resolve h of
        Inl e \<Rightarrow> Inl e
      | Inr r \<Rightarrow> (case resolve_all hs of Inl e \<Rightarrow> Inl e | Inr rs \<Rightarrow> Inr (r # rs)))"

text \<open>The comparator \<open>(a, b) => b.requested - a.requested || a.prefix - b.prefix\<close>.\<close>

definition compare :: "requirement \<Rightarrow> requirement \<Rightarrow> int" where
  "compare a b =
     (if requested b - requested a \<noteq> 0 then requested b - requested a
      else int (req_prefix a) - int (req_prefix b))"

text \<open>
  \<open>Array.prototype.sort\<close> is stable, and the comparator is a consistent one, so the
  result is the stable sort by it: the insertion sort that keeps equal elements in
  their input order.
\<close>

fun insert_by :: "('a \<Rightarrow> 'a \<Rightarrow> int) \<Rightarrow> 'a \<Rightarrow> 'a list \<Rightarrow> 'a list" where
  "insert_by cmp x [] = [x]"
| "insert_by cmp x (y # ys) =
     (if cmp x y \<le> 0 then x # y # ys else y # insert_by cmp x ys)"

definition sort_by :: "('a \<Rightarrow> 'a \<Rightarrow> int) \<Rightarrow> 'a list \<Rightarrow> 'a list" where
  "sort_by cmp xs = foldr (insert_by cmp) xs []"

text \<open>\<open>Math.ceil(current / boundary)\<close> for a positive boundary.\<close>

definition ceil_div :: "int \<Rightarrow> int \<Rightarrow> int" where
  "ceil_div a b = - ((- a) div b)"

text \<open>The placement loop: the cursor and the allocations so far are the loop's state.\<close>

fun place :: "int \<Rightarrow> int \<Rightarrow> int \<Rightarrow> requirement list \<Rightarrow> subnet list \<Rightarrow> error + subnet list" where
  "place primaryStart primaryEnd current [] allocations = Inr allocations"
| "place primaryStart primaryEnd current (r # rs) allocations =
     (let boundary = block r;
          alignedStart = js_ushr (Num (ceil_div current boundary * boundary)) (Num 0)
      in if js_ushr (Num (alignedStart + block r - 1)) (Num 0) > primaryEnd
         then Inl (NotEnoughSpace (requested r) (req_prefix r) (block r))
         else if alignedStart < primaryStart
                 \<or> js_ushr (Num (alignedStart + block r - 1)) (Num 0) > primaryEnd
         then Inl OutsidePrimary
         else place primaryStart primaryEnd (js_ushr (Num (alignedStart + block r)) (Num 0)) rs
                (allocations @ [subnetInfo alignedStart (req_prefix r) (requested r)]))"

text \<open>
  The address range of a record as the overlap verification reads it back from the
  record: \<open>aStart\<close> and \<open>aEnd\<close> (\<open>bStart\<close> and \<open>bEnd\<close>) of the source.
\<close>

definition first_address :: "subnet \<Rightarrow> int" where
  "first_address a = ipToInt (network a)"

definition last_address :: "subnet \<Rightarrow> int" where
  "last_address a = first_address a + total_addresses a - 1"

text \<open>The inner loop of the overlap verification: record \<open>a\<close> against the later ones.\<close>

fun overlap_with :: "subnet \<Rightarrow> subnet list \<Rightarrow> error option" where
  "overlap_with a [] = None"
| "overlap_with a (b # bs) =
     (let aStart = first_address a;
          aEnd = last_address a;
          bStart = first_address b;
          bEnd = last_address b
      in if \<not> (aEnd < bStart \<or> bEnd < aStart) then Some (Overlap (cidr a) (cidr b))
         else overlap_with a bs)"

fun verify :: "subnet list \<Rightarrow> error option" where
  "verify [] = None"
| "verify (a # rest) =
     (case overlap_with a rest of Some e \<Rightarrow> Some e | None \<Rightarrow> verify rest)"

definition allocateVlsm :: "string \<Rightarrow> jsnum list \<Rightarrow> error + subnet list" where
  "allocateVlsm primaryCidr hostRequirements =
     (case parseCidr primaryCidr of
        Inl e \<Rightarrow> Inl e
      | Inr p \<Rightarrow>
          (case resolve_all hostRequirements of
             Inl e \<Rightarrow> Inl e
           | Inr resolved \<Rightarrow>
               let reqs = sort_by compare resolved;
                   sumBlocks = foldl (\<lambda>s r. s + block r) 0 reqs
               in if js_gt (Num sumBlocks) (primary_total p)
                  then Inl (InsufficientAddressSpace sumBlocks (primary_total p))
                  else (case place (networkInt p) (broadcastInt p) (networkInt p) reqs [] of
                          Inl e \<Rightarrow> Inl e
                        | Inr allocations \<Rightarrow>
                            (case verify allocations of
                               Some e \<Rightarrow> Inl e
                             | None \<Rightarrow> Inr allocations))))"

section \<open>The prefix sizer and the sort\<close>

text \<open>
  The scan returns the largest prefix whose capacity reaches the host count, so the
  derived prefix falls as the host count grows; the sort is a permutation of its input
  that is ordered by the comparator.
\<close>

lemma scan_Inr:
  "scan h n = Inr p \<Longrightarrow> p \<le> n \<and> h \<le> usable_of p \<and> (\<forall>q. p < q \<and> q \<le> n \<longrightarrow> usable_of q < h)"
proof (induction n)
  case 0
  then show ?case by (simp split: if_splits)
next
  case (Suc n)
  show ?case
  proof (cases "h \<le> usable_of (Suc n)")
    case True
    with Suc.prems show ?thesis by simp
  next
    case False
    with Suc.prems have "scan h n = Inr p" by simp
    from Suc.IH[OF this] False show ?thesis
      by (auto simp: le_Suc_eq)
  qed
qed

lemma resolve_Inr:
  assumes "resolve h = Inr r"
  shows "h = Num (requested r)" "1 \<le> requested r" "req_prefix r \<le> 32"
    "block r = 2 ^ (32 - req_prefix r)" "requested r \<le> usable_of (req_prefix r)"
    "\<forall>q. req_prefix r < q \<and> q \<le> 32 \<longrightarrow> usable_of q < requested r"
proof -
  from assms obtain n p where h: "h = Num n" and n: "0 < n" and s: "scan n 32 = Inr p"
    and r: "r = \<lparr>requested = n, req_prefix = p, block = 2 ^ (32 - p)\<rparr>"
    by (auto simp: resolve_def split: jsnum.splits if_splits sum.splits)
  from scan_Inr[OF s] h n r
  show "h = Num (requested r)" "1 \<le> requested r" "req_prefix r \<le> 32"
    "block r = 2 ^ (32 - req_prefix r)" "requested r \<le> usable_of (req_prefix r)"
    "\<forall>q. req_prefix r < q \<and> q \<le> 32 \<longrightarrow> usable_of q < requested r"
    by simp_all
qed

lemma resolve_all_Inr:
  "resolve_all hs = Inr rs \<Longrightarrow>
     map (\<lambda>r. Num (requested r)) rs = hs \<and> (\<forall>r\<in>set rs. resolve (Num (requested r)) = Inr r)"
proof (induction hs arbitrary: rs)
  case Nil
  then show ?case by simp
next
  case (Cons h hs)
  from Cons.prems obtain r rs' where r: "resolve h = Inr r" and rs': "resolve_all hs = Inr rs'"
    and rs: "rs = r # rs'"
    by (auto split: sum.splits)
  from resolve_Inr(1)[OF r] r Cons.IH[OF rs'] rs show ?case by auto
qed

lemma resolved_mono:
  assumes "resolve h1 = Inr r1" "resolve h2 = Inr r2" "requested r2 \<le> requested r1"
  shows "req_prefix r1 \<le> req_prefix r2"
proof (rule ccontr)
  assume "\<not> req_prefix r1 \<le> req_prefix r2"
  then have "req_prefix r2 < req_prefix r1" by simp
  with resolve_Inr(6)[OF assms(2)] resolve_Inr(3)[OF assms(1)]
  have "usable_of (req_prefix r1) < requested r2" by blast
  with resolve_Inr(5)[OF assms(1)] assms(3) show False by simp
qed

lemma compare_le_iff:
  "compare a b \<le> 0 \<longleftrightarrow>
     requested b < requested a \<or> (requested b = requested a \<and> req_prefix a \<le> req_prefix b)"
  by (auto simp: compare_def)

lemma set_insert_by: "set (insert_by cmp x ys) = insert x (set ys)"
  by (induction ys) auto

lemma mset_insert_by: "mset (insert_by cmp x ys) = add_mset x (mset ys)"
  by (induction ys) auto

lemma mset_sort_by: "mset (sort_by cmp xs) = mset xs"
  by (induction xs) (auto simp: sort_by_def mset_insert_by)

lemma set_sort_by: "set (sort_by cmp xs) = set xs"
  using mset_sort_by[of cmp xs] by (metis set_mset_mset)

lemma sorted_insert_by:
  "sorted_wrt (\<lambda>a b. compare a b \<le> 0) ys \<Longrightarrow>
   sorted_wrt (\<lambda>a b. compare a b \<le> 0) (insert_by compare x ys)"
proof (induction ys)
  case Nil
  then show ?case by simp
next
  case (Cons y ys)
  show ?case
  proof (cases "compare x y \<le> 0")
    case True
    have "\<forall>z\<in>set ys. compare x z \<le> 0"
    proof
      fix z assume "z \<in> set ys"
      with Cons.prems have "compare y z \<le> 0" by simp
      with True show "compare x z \<le> 0" unfolding compare_le_iff by auto
    qed
    with True Cons.prems show ?thesis by simp
  next
    case False
    then have "compare y x \<le> 0" unfolding compare_le_iff by auto
    with False Cons show ?thesis by (auto simp: set_insert_by)
  qed
qed

lemma sorted_sort_by: "sorted_wrt (\<lambda>a b. compare a b \<le> 0) (sort_by compare xs)"
proof (induction xs)
  case Nil
  then show ?case by (simp add: sort_by_def)
next
  case (Cons x xs)
  then show ?case using sorted_insert_by[of "sort_by compare xs" x] by (simp add: sort_by_def)
qed

lemma foldl_block_sum: "foldl (\<lambda>s r. s + block r) a rs = a + sum_list (map block rs)"
  by (induction rs arbitrary: a) auto

section \<open>Decimal text and parseInt\<close>

text \<open>\<open>parseInt\<close> reads back what the number-to-text conversion writes.\<close>

declare dec.simps [simp del]

lemma digit_char:
  assumes "d < 10"
  shows "is_digit (char_of (48 + d))" "digit_val (char_of (48 + d)) = d"
  using assms by (simp_all add: is_digit_def digit_val_def)

lemma is_digit_not_special:
  "is_digit c \<Longrightarrow> \<not> is_space c \<and> c \<noteq> CHR ''-'' \<and> c \<noteq> CHR ''+'' \<and> c \<noteq> CHR ''.''"
  by (auto simp: is_digit_def is_space_def)

lemma digits_val_snoc: "digits_val (ds @ [c]) = 10 * digits_val ds + digit_val c"
  by (simp add: digits_val_def)

lemma dec_props: "dec n \<noteq> [] \<and> (\<forall>c\<in>set (dec n). is_digit c) \<and> digits_val (dec n) = n"
proof (induction n rule: dec.induct)
  case (1 n)
  show ?case
  proof (cases "n < 10")
    case True
    then show ?thesis
      by (simp add: dec.simps[of n] digit_char digits_val_def)
  next
    case False
    have "n mod 10 < 10" by simp
    note dc = digit_char[OF this]
    from False 1 dc show ?thesis
      by (simp add: dec.simps[of n] digits_val_snoc)
  qed
qed

lemma parseInt_digits:
  assumes "ds \<noteq> []" "\<forall>c\<in>set ds. is_digit c"
  shows "parseInt ds = Num (int (digits_val ds))"
proof -
  from assms obtain c cs where ds: "ds = c # cs" by (cases ds) auto
  with assms have c: "is_digit c" by simp
  from is_digit_not_special[OF c] have d: "dropWhile is_space ds = ds" by (simp add: ds)
  from assms have t: "takeWhile is_digit ds = ds" by (simp add: takeWhile_eq_all_conv)
  from is_digit_not_special[OF c] show ?thesis
    unfolding parseInt_def d Let_def using t assms(1) by (simp add: ds)
qed

lemma split_no_sep: "d \<notin> set a \<Longrightarrow> split d a = [a]"
  by (induction a) auto

lemma split_append: "d \<notin> set a \<Longrightarrow> split d (a @ d # rest) = a # split d rest"
  by (induction a) auto

section \<open>The address codec on words\<close>

text \<open>
  \<open>ipToInt\<close> on four groups of digits is the big-endian combination modulo \<open>2 ^ 32\<close>,
  \<open>intToIp\<close> writes the four octets of an address, and \<open>ipToInt\<close> inverts \<open>intToIp\<close> on
  the unsigned 32-bit range.
\<close>

lemma shift_count_simps:
  "shift_count (Num 0) = 0" "shift_count (Num 8) = 8" "shift_count (Num 16) = 16"
  "shift_count (Num 24) = 24"
  by (simp_all add: shift_count_def)

lemma js_ushr_0: "js_ushr (Num n) (Num 0) = n mod 2 ^ 32"
  by (simp add: js_ushr_def shift_count_simps uint_word_of_int)

lemma word_of_js_shl8: "(word_of_int (js_shl a (Num 8)) :: 32 word) = to_word a * 256"
  by (simp add: js_shl_def shift_count_simps push_bit_eq_mult)

lemma uint_word32: "uint (word_of_int k :: 32 word) = k mod 2 ^ 32"
  by (simp add: uint_word_of_int)

lemma js_shl8_cong:
  "(word_of_int x :: 32 word) = word_of_int y \<Longrightarrow>
   (word_of_int (js_shl (Num x) (Num 8) + v) :: 32 word) = word_of_int (256 * y + v)"
  by (simp add: word_of_js_shl8 mult.commute)

lemma ipToInt_groups:
  assumes "a \<noteq> []" "\<forall>x\<in>set a. is_digit x" "b \<noteq> []" "\<forall>x\<in>set b. is_digit x"
    "c \<noteq> []" "\<forall>x\<in>set c. is_digit x" "d \<noteq> []" "\<forall>x\<in>set d. is_digit x"
    and exact: "digits_val a < 2 ^ 52" "digits_val b < 2 ^ 52" "digits_val c < 2 ^ 52"
      "digits_val d < 2 ^ 52"
  shows "ipToInt (a @ ''.'' @ b @ ''.'' @ c @ ''.'' @ d) =
           (((int (digits_val a) * 256 + int (digits_val b)) * 256 + int (digits_val c)) * 256
              + int (digits_val d)) mod 2 ^ 32"
proof -
  have nd: "CHR ''.'' \<notin> set a" "CHR ''.'' \<notin> set b" "CHR ''.'' \<notin> set c" "CHR ''.'' \<notin> set d"
    using assms(1-8) is_digit_not_special by blast+
  have sp: "split CHR ''.'' (a @ ''.'' @ b @ ''.'' @ c @ ''.'' @ d) = [a, b, c, d]"
    using nd by (simp add: split_append split_no_sep)
  have w0: "(word_of_int (js_shl (Num 0) (Num 8) + int (digits_val a)) :: 32 word)
              = word_of_int (int (digits_val a))"
    using js_shl8_cong[of 0 0 "int (digits_val a)"] by simp
  note w1 = js_shl8_cong[OF w0, of "int (digits_val b)"]
  note w2 = js_shl8_cong[OF w1, of "int (digits_val c)"]
  note w3 = js_shl8_cong[OF w2, of "int (digits_val d)"]
  have "ipToInt (a @ ''.'' @ b @ ''.'' @ c @ ''.'' @ d) =
          uint (word_of_int (js_shl (Num (js_shl (Num (js_shl (Num (js_shl (Num 0) (Num 8)
             + int (digits_val a))) (Num 8) + int (digits_val b))) (Num 8)
             + int (digits_val c))) (Num 8) + int (digits_val d)) :: 32 word)"
    unfolding ipToInt_def sp
    by (simp add: parseInt_digits assms(1-8) js_ushr_def shift_count_simps)
  also have "\<dots> = uint (word_of_int (256 * (256 * (256 * int (digits_val a) + int (digits_val b))
                        + int (digits_val c)) + int (digits_val d)) :: 32 word)"
    by (simp only: w3)
  also have "\<dots> = (256 * (256 * (256 * int (digits_val a) + int (digits_val b))
                        + int (digits_val c)) + int (digits_val d)) mod 2 ^ 32"
    by (rule uint_word32)
  finally show ?thesis
    by (simp add: algebra_simps)
qed

lemma sint_small: "uint (w :: 32 word) < 2 ^ 31 \<Longrightarrow> sint w = uint w"
proof -
  assume a: "uint w < 2 ^ 31"
  have "(0::int) \<le> 2 ^ 31" by simp
  with uint_ge_0[of w] have b: "- (2 ^ 31) \<le> uint w" by linarith
  have "signed_take_bit 31 (uint w) = uint w"
    by (rule signed_take_bit_int_eq_self[OF b a])
  then show ?thesis by (simp add: sint_uint)
qed

lemma and_255: "sint ((w :: 32 word) AND 255) = uint w mod 256"
proof -
  have m: "(255 :: 32 word) = mask 8" by (simp add: mask_eq_exp_minus_1)
  have t: "w AND 255 = take_bit 8 w" unfolding m by (simp only: take_bit_eq_mask)
  have "uint (take_bit 8 w) = take_bit 8 (uint w)" by (rule unsigned_take_bit_eq)
  also have "\<dots> = uint w mod 2 ^ 8" by (rule take_bit_eq_mod)
  finally have u: "uint (take_bit 8 w) = uint w mod 256" by simp
  have "uint w mod 256 < 256" by simp
  then have "uint w mod 256 < 2 ^ 31" by simp
  with u have "uint (take_bit 8 w) < 2 ^ 31" by simp
  then have "sint (take_bit 8 w) = uint (take_bit 8 w)" by (rule sint_small)
  with t u show ?thesis by simp
qed

lemma drop_uint: "uint (drop_bit s (word_of_int n :: 32 word)) = (n mod 2 ^ 32) div 2 ^ s"
proof -
  have t: "take_bit LENGTH(32) (uint (word_of_int n :: 32 word)) = uint (word_of_int n :: 32 word)"
    by (rule take_bit_int_eq_self) (simp_all add: uint_word32)
  have "uint (drop_bit s (word_of_int n :: 32 word))
          = drop_bit s (take_bit LENGTH(32) (uint (word_of_int n :: 32 word)))"
    by (rule unsigned_drop_bit_eq)
  also have "\<dots> = drop_bit s (uint (word_of_int n :: 32 word))" by (simp only: t)
  also have "\<dots> = uint (word_of_int n :: 32 word) div 2 ^ s" by (rule drop_bit_eq_div)
  finally show ?thesis by (simp only: uint_word32)
qed

lemma octet:
  assumes "s \<in> {0, 8, 16, 24}"
  shows "js_and (Num (js_ushr (Num n) (Num s))) (Num 255) = (n mod 2 ^ 32) div 2 ^ nat s mod 256"
proof -
  from assms have sc: "shift_count (Num s) = nat s" by (auto simp: shift_count_simps)
  have "js_and (Num (js_ushr (Num n) (Num s))) (Num 255)
          = sint (drop_bit (nat s) (word_of_int n :: 32 word) AND 255)"
    unfolding js_and_def js_ushr_def sc to_word.simps by (simp only: word_of_int_uint) simp
  also have "\<dots> = uint (drop_bit (nat s) (word_of_int n :: 32 word)) mod 256"
    by (rule and_255)
  finally show ?thesis by (simp only: drop_uint)
qed

lemma octets_combine:
  assumes "0 \<le> n" "n < 2 ^ 32"
  shows "((n div 2 ^ 24 mod 256 * 256 + n div 2 ^ 16 mod 256) * 256 + n div 2 ^ 8 mod 256) * 256
           + n div 2 ^ 0 mod 256 = (n :: int)"
proof -
  define q1 where "q1 = n div 256"
  define q2 where "q2 = q1 div 256"
  define q3 where "q3 = q2 div 256"
  have e8: "n div 2 ^ 8 = q1" by (simp add: q1_def)
  have "n div (256 * 256) = q2" unfolding q2_def q1_def by (rule zdiv_zmult2_eq) simp
  then have e16: "n div 2 ^ 16 = q2" by simp
  have "n div (65536 * 256) = n div 65536 div 256" by (rule zdiv_zmult2_eq) simp
  with e16 have e24: "n div 2 ^ 24 = q3" by (simp add: q3_def)
  have "q3 < 256" "0 \<le> q3" using assms unfolding e24[symmetric] by simp_all
  then have a: "q3 mod 256 = q3" by simp
  have d2: "q2 = q3 * 256 + q2 mod 256" unfolding q3_def by simp
  have d1: "q1 = q2 * 256 + q1 mod 256" unfolding q2_def by simp
  have d0: "n = q1 * 256 + n mod 256" unfolding q1_def by simp
  have "((q3 mod 256 * 256 + q2 mod 256) * 256 + q1 mod 256) * 256 + n mod 256 = n"
    unfolding a by (simp only: d2[symmetric] d1[symmetric] d0[symmetric])
  then show ?thesis unfolding e8 e16 e24 by simp
qed

lemma dec_nonempty: "dec k \<noteq> []"
  using dec_props[of k] by simp

lemma dec_digits: "\<forall>x\<in>set (dec k). is_digit x"
  using dec_props[of k] by simp

lemma dec_val: "digits_val (dec k) = k"
  using dec_props[of k] by simp

lemma ipToInt_dec:
  assumes "a < 2 ^ 52" "b < 2 ^ 52" "c < 2 ^ 52" "d < 2 ^ 52"
  shows "ipToInt (dec a @ ''.'' @ dec b @ ''.'' @ dec c @ ''.'' @ dec d)
     = (((int a * 256 + int b) * 256 + int c) * 256 + int d) mod 2 ^ 32"
proof -
  have "ipToInt (dec a @ ''.'' @ dec b @ ''.'' @ dec c @ ''.'' @ dec d)
     = (((int (digits_val (dec a)) * 256 + int (digits_val (dec b))) * 256
           + int (digits_val (dec c))) * 256 + int (digits_val (dec d))) mod 2 ^ 32"
    by (rule ipToInt_groups)
      (rule dec_nonempty dec_digits | simp only: dec_val assms)+
  then show ?thesis by (simp only: dec_val)
qed

lemma ipToInt_intToIp:
  assumes "0 \<le> n" "n < 2 ^ 32"
  shows "ipToInt (intToIp n) = n"
proof -
  define f where "f s = n div 2 ^ nat s mod 256" for s :: int
  from assms have m: "n mod 2 ^ 32 = n" by simp
  have o: "js_and (Num (js_ushr (Num n) (Num s))) (Num 255) = f s"
    if "s \<in> {0, 8, 16, 24}" for s
    using octet[OF that, of n] unfolding f_def by (simp only: m)
  have o24: "js_and (Num (js_ushr (Num n) (Num 24))) (Num 255) = f 24" by (rule o) simp
  have o16: "js_and (Num (js_ushr (Num n) (Num 16))) (Num 255) = f 16" by (rule o) simp
  have o8: "js_and (Num (js_ushr (Num n) (Num 8))) (Num 255) = f 8" by (rule o) simp
  have o0: "js_and (Num (js_ushr (Num n) (Num 0))) (Num 255) = f 0" by (rule o) simp
  have f0: "0 \<le> f s" for s unfolding f_def by (rule pos_mod_sign) simp
  have nn: "num_to_string (f s) = dec (nat (f s))" for s
    using f0[of s] unfolding num_to_string_def by simp
  have v: "int (nat (f s)) = f s" for s
    using f0[of s] by simp
  have "f s < 256" for s unfolding f_def by (rule pos_mod_bound) simp
  then have small: "nat (f s) < 2 ^ 52" for s
    using f0[of s] by (simp add: nat_less_iff less_trans[of "f s" 256])
  have form: "intToIp n = dec (nat (f 24)) @ ''.'' @ dec (nat (f 16)) @ ''.'' @ dec (nat (f 8))
                @ ''.'' @ dec (nat (f 0))"
    unfolding intToIp_def by (simp only: list.map o24 o16 o8 o0 nn join.simps)
  have "ipToInt (intToIp n) = (((f 24 * 256 + f 16) * 256 + f 8) * 256 + f 0) mod 2 ^ 32"
    unfolding form ipToInt_dec[OF small small small small] by (simp only: v)
  also have "((f 24 * 256 + f 16) * 256 + f 8) * 256 + f 0 = n"
  proof -
    have k: "nat 24 = 24" "nat 16 = 16" "nat 8 = 8" "nat 0 = 0" by simp_all
    show ?thesis unfolding f_def k by (rule octets_combine[OF assms])
  qed
  finally show ?thesis by (simp only: m)
qed

section \<open>The mask and the parsed primary range\<close>

text \<open>
  What a successful \<open>parseCidr\<close> returns: either the prefix was \<open>NaN\<close>, and then the size
  is \<open>NaN\<close> and the broadcast address 0; or the size is \<open>2 ^ k\<close>, the network address
  (\<open>networkInt\<close> read as unsigned) is a multiple of it, and the broadcast address is the
  last address of the block, below \<open>2 ^ 32\<close>.
\<close>

lemma sint_cases: "sint (w :: 32 word) = uint w \<or> sint w = uint w - 2 ^ 32"
proof -
  have "uint w = take_bit 32 (sint w)" using uint_sint[of w] by simp
  then have e: "uint w = sint w mod 2 ^ 32" by (simp only: take_bit_eq_mod)
  have l: "- (2 ^ 31) \<le> sint w" using sint_ge[of w] by simp
  have u: "sint w < 2 ^ 31" using sint_lt[of w] by simp
  show ?thesis
  proof (cases "0 \<le> sint w")
    case True
    with u have "sint w mod 2 ^ 32 = sint w" by simp
    with e show ?thesis by simp
  next
    case False
    with l have "0 \<le> sint w + 2 ^ 32" "sint w + 2 ^ 32 < 2 ^ 32" by simp_all
    then have "(sint w + 2 ^ 32) mod 2 ^ 32 = sint w + 2 ^ 32" by (rule mod_pos_pos_trivial)
    then have "sint w mod 2 ^ 32 = sint w + 2 ^ 32" by simp
    with e show ?thesis by simp
  qed
qed

lemma sint_mod: "sint (w :: 32 word) mod 2 ^ 32 = uint w"
proof -
  have "uint w = take_bit 32 (sint w)" using uint_sint[of w] by simp
  then show ?thesis by (simp only: take_bit_eq_mod)
qed

lemma word_of_sint: "(word_of_int (sint (w :: 32 word)) :: 32 word) = w"
  by simp

lemma shift_count_small:
  assumes "0 \<le> x" "x < 32"
  shows "shift_count (Num x) = nat x"
proof -
  have m: "(31 :: 32 word) = mask 5" by (simp add: mask_eq_exp_minus_1)
  have "uint (word_of_int x AND 31 :: 32 word) = uint (take_bit 5 (word_of_int x :: 32 word))"
    unfolding m by (simp only: take_bit_eq_mask)
  also have "\<dots> = take_bit 5 (uint (word_of_int x :: 32 word))" by (rule unsigned_take_bit_eq)
  also have "\<dots> = uint (word_of_int x :: 32 word) mod 2 ^ 5" by (rule take_bit_eq_mod)
  also have "uint (word_of_int x :: 32 word) = x" using assms by (simp add: uint_word32)
  also have "x mod 2 ^ 5 = x" using assms by simp
  finally have "uint (word_of_int x AND 31 :: 32 word) = x" .
  then show ?thesis by (simp only: shift_count_def to_word.simps unat_eq_nat_uint)
qed

lemma word_maskInt:
  assumes "0 \<le> q" "q \<le> 32"
  shows "(word_of_int (maskInt (Num q)) :: 32 word) = NOT (mask (nat (32 - q)))"
proof (cases "q = 0")
  case True
  have "NOT (mask 32 :: 32 word) = 0" by (simp flip: minus_exp_eq_not_mask)
  with True show ?thesis by (simp add: maskInt_def)
next
  case False
  have m1: "(word_of_int 4294967295 :: 32 word) = - 1" by simp
  have sc: "shift_count (Num (32 - q)) = nat (32 - q)"
  proof (cases "q = 32")
    case True
    then show ?thesis by (simp add: shift_count_simps)
  next
    case False
    with assms \<open>q \<noteq> 0\<close> show ?thesis by (intro shift_count_small) simp_all
  qed
  have "maskInt (Num q) = uint (push_bit (nat (32 - q)) (- 1 :: 32 word))"
    using False unfolding maskInt_def js_ushr_def js_shl_def shift_count_simps js_sub.simps sc
      to_word.simps m1
    by (simp only: word_of_sint jsnum.inject if_False drop_bit_0) simp
  then show ?thesis by (simp only: word_of_int_uint push_bit_minus_one_eq_not_mask)
qed

lemma aligned_room:
  fixes S :: int
  assumes "k \<le> 32" "2 ^ k dvd S" "S < 2 ^ 32"
  shows "S + 2 ^ k \<le> 2 ^ 32"
proof -
  from assms(2) obtain a where a: "S = 2 ^ k * a" by (auto simp: dvd_def)
  have p: "(2 :: int) ^ 32 = 2 ^ k * 2 ^ (32 - k)"
    using assms(1) by (simp flip: power_add)
  have "2 ^ k * a < 2 ^ k * 2 ^ (32 - k)" using assms(3) unfolding a p[symmetric] .
  then have "a < 2 ^ (32 - k)" by (simp add: mult_less_cancel_left_pos)
  then have "a + 1 \<le> 2 ^ (32 - k)" by simp
  then have "2 ^ k * (a + 1) \<le> 2 ^ k * 2 ^ (32 - k)" by (intro mult_left_mono) simp_all
  then show ?thesis unfolding a p[symmetric] by (simp add: algebra_simps)
qed

lemma masked_props:
  fixes w :: "32 word"
  assumes "k \<le> 32"
  shows "2 ^ k dvd uint (w AND NOT (mask k))" "uint (w AND NOT (mask k)) + 2 ^ k \<le> 2 ^ 32"
proof -
  have "take_bit k (w AND NOT (mask k)) = take_bit k w AND take_bit k (NOT (mask k) :: 32 word)"
    by (rule take_bit_and)
  also have "take_bit k (NOT (mask k) :: 32 word) = 0" by (rule take_bit_not_mask_eq_0) simp
  finally have z: "take_bit k (w AND NOT (mask k)) = 0" by simp
  have "take_bit k (uint (w AND NOT (mask k))) = uint (take_bit k (w AND NOT (mask k)))"
    by (rule unsigned_take_bit_eq[symmetric])
  with z have "take_bit k (uint (w AND NOT (mask k))) = 0" by simp
  then have "uint (w AND NOT (mask k)) mod 2 ^ k = 0" by (simp only: take_bit_eq_mod)
  then show d: "2 ^ k dvd uint (w AND NOT (mask k))" by (rule dvd_eq_mod_eq_0[THEN iffD2])
  have "uint (w AND NOT (mask k)) < 2 ^ 32" using uint_lt2p[of "w AND NOT (mask k)"] by simp
  with assms d show "uint (w AND NOT (mask k)) + 2 ^ k \<le> 2 ^ 32" by (rule aligned_room)
qed

lemma js_ushr_NaN: "js_ushr NaN (Num 0) = 0"
  by (simp add: js_ushr_def)

lemma parseCidr_Inr:
  assumes "parseCidr c = Inr p"
  shows "(primary_total p = NaN \<and> broadcastInt p = 0 \<and> - (2 ^ 32) < networkInt p
            \<and> networkInt p < 2 ^ 32)
       \<or> (\<exists>k\<le>32. primary_total p = Num (2 ^ k)
             \<and> 2 ^ k dvd networkInt p mod 2 ^ 32
             \<and> networkInt p mod 2 ^ 32 + 2 ^ k \<le> 2 ^ 32
             \<and> broadcastInt p = networkInt p mod 2 ^ 32 + 2 ^ k - 1
             \<and> (networkInt p = networkInt p mod 2 ^ 32
                  \<or> networkInt p = networkInt p mod 2 ^ 32 - 2 ^ 32))"
proof -
  from assms obtain ip ptext where
    g: "\<not> (js_lt (parseInt ptext) (Num 0) \<or> js_gt (parseInt ptext) (Num 32))"
    and p: "p = \<lparr>networkInt = js_and (Num (ipToInt ip)) (Num (maskInt (parseInt ptext))),
                 primary_prefix = parseInt ptext,
                 primary_total = js_pow2 (js_sub (Num 32) (parseInt ptext)),
                 broadcastInt = js_ushr (js_sub (js_add
                    (Num (js_and (Num (ipToInt ip)) (Num (maskInt (parseInt ptext)))))
                    (js_pow2 (js_sub (Num 32) (parseInt ptext)))) (Num 1)) (Num 0)\<rparr>"
    by (auto simp: parseCidr_def Let_def split: list.splits if_splits)
  show ?thesis
  proof (cases "parseInt ptext")
    case NaN
    define w :: "32 word" where "w = word_of_int (ipToInt ip) AND word_of_int (maskInt NaN)"
    have n: "networkInt p = sint w" by (simp add: p NaN js_and_def w_def)
    have "- (2 ^ 31) \<le> sint w" "sint w < 2 ^ 31" using sint_ge[of w] sint_lt[of w] by simp_all
    then have "- (2 ^ 32) < sint w" "sint w < 2 ^ 32" by simp_all
    moreover have "primary_total p = NaN" "broadcastInt p = 0"
      by (simp_all add: p NaN js_ushr_NaN)
    ultimately show ?thesis using n by simp
  next
    case (Num q)
    with g have q: "0 \<le> q" "q \<le> 32" by (simp_all add: js_gt_def)
    define k where "k = nat (32 - q)"
    have k: "k \<le> 32" using q by (simp add: k_def)
    define w :: "32 word" where "w = word_of_int (ipToInt ip) AND NOT (mask k)"
    have n: "networkInt p = sint w"
      unfolding w_def k_def word_maskInt[OF q, symmetric] by (simp add: p Num js_and_def)
    have S: "networkInt p mod 2 ^ 32 = uint w" unfolding n by (rule sint_mod)
    have t: "primary_total p = Num (2 ^ k)" by (simp add: p Num k_def)
    from masked_props[OF k, of "word_of_int (ipToInt ip)"]
    have d: "2 ^ k dvd uint w" and r: "uint w + 2 ^ k \<le> 2 ^ 32" unfolding w_def by simp_all
    have "broadcastInt p = (sint w + 2 ^ k - 1) mod 2 ^ 32"
      using n t by (simp add: p js_ushr_0)
    also have "\<dots> = (sint w + (2 ^ k - 1)) mod 2 ^ 32" by (simp add: algebra_simps)
    also have "\<dots> = (sint w mod 2 ^ 32 + (2 ^ k - 1)) mod 2 ^ 32"
      by (rule mod_add_left_eq[symmetric])
    also have "\<dots> = (uint w + (2 ^ k - 1)) mod 2 ^ 32" by (simp only: sint_mod)
    also have "\<dots> = uint w + (2 ^ k - 1)"
    proof (rule mod_pos_pos_trivial)
      have "(1 :: int) \<le> 2 ^ k" by simp
      with uint_ge_0[of w] show "0 \<le> uint w + (2 ^ k - 1)" by linarith
      from r show "uint w + (2 ^ k - 1) < 2 ^ 32" by linarith
    qed
    finally have b: "broadcastInt p = uint w + 2 ^ k - 1" by simp
    from sint_cases[of w] have c: "sint w = uint w \<or> sint w = uint w - 2 ^ 32" .
    show ?thesis
      apply (rule disjI2)
      apply (rule exI[of _ k])
      unfolding S
      using k t d r b c n by simp
  qed
qed

section \<open>The placement loop\<close>

text \<open>
  The loop invariant. Blocks are powers of two in descending order, each dividing the
  cursor, and their sum fits between the cursor and the end of the primary range. Then
  aligning the cursor changes nothing, no check fails, and the records lie one after the
  other. The cursor is kept as a mathematical integer \<open>c\<close>; the variable \<open>current\<close> of
  the source is \<open>c\<close>, or \<open>c - 2 ^ 32\<close> where the source holds the signed \<open>networkInt\<close> or
  the cursor has just wrapped to 0 behind the last address.

  With a primary of size \<open>NaN\<close> the capacity check passes and the end of the range is
  0: only a single /32 block at address 0 can be placed.
\<close>

lemma ceil_div_exact: "b dvd a \<Longrightarrow> ceil_div a b * b = a"
proof -
  assume "b dvd a"
  then have "b dvd - a" by simp
  then have "(- a) div b * b = - a" by (rule dvd_div_mult_self)
  then show ?thesis by (simp add: ceil_div_def)
qed

lemma subnetInfo_fields:
  "network (subnetInfo a p r) = intToIp a"
  "prefix (subnetInfo a p r) = p"
  "total_addresses (subnetInfo a p r) = 2 ^ (32 - p)"
  "usable_hosts (subnetInfo a p r) = usable_of p"
  "requested_hosts (subnetInfo a p r) = r"
  "wasted_addresses (subnetInfo a p r) = 2 ^ (32 - p) - r"
  by (simp_all add: subnetInfo_def Let_def usable_of_def)

lemma subnetInfo_range:
  assumes "0 \<le> a" "a < 2 ^ 32"
  shows "first_address (subnetInfo a p r) = a"
    "last_address (subnetInfo a p r) = a + 2 ^ (32 - p) - 1"
  using ipToInt_intToIp[OF assms]
  by (simp_all only: first_address_def last_address_def subnetInfo_fields)

lemma place_shape:
  "place ps pe cur rs acc = Inr res \<Longrightarrow>
     \<exists>new. res = acc @ new
       \<and> list_all2 (\<lambda>s q. \<exists>a. s = subnetInfo a (req_prefix q) (requested q)) new rs"
proof (induction rs arbitrary: cur acc)
  case Nil
  then show ?case by simp
next
  case (Cons r rs)
  let ?a = "js_ushr (Num (ceil_div cur (block r) * block r)) (Num 0)"
  from Cons.prems have
    "place ps pe (js_ushr (Num (?a + block r)) (Num 0)) rs
       (acc @ [subnetInfo ?a (req_prefix r) (requested r)]) = Inr res"
    by (simp add: Let_def split: if_splits)
  from Cons.IH[OF this] obtain new where
    "res = (acc @ [subnetInfo ?a (req_prefix r) (requested r)]) @ new"
    "list_all2 (\<lambda>s q. \<exists>a. s = subnetInfo a (req_prefix q) (requested q)) new rs"
    by blast
  then show ?case
    by (intro exI[of _ "subnetInfo ?a (req_prefix r) (requested r) # new"]) auto
qed

lemma pow2_dvd_32: "j \<le> 32 \<Longrightarrow> (2 :: int) ^ j dvd 2 ^ 32"
  by (rule le_imp_power_dvd)

lemma place_step:
  assumes blk: "block r = 2 ^ j" "j \<le> 32"
    and dv: "block r dvd c"
    and c0: "0 \<le> c"
    and fit: "c + block r \<le> pe + 1"
    and pe: "pe < 2 ^ 32"
    and ps: "ps \<le> c"
    and cur: "cur = c \<or> cur = c - 2 ^ 32"
  shows "place ps pe cur (r # rs) acc =
           place ps pe ((c + block r) mod 2 ^ 32) rs
             (acc @ [subnetInfo c (req_prefix r) (requested r)])"
proof -
  have b1: "1 \<le> block r" unfolding blk by simp
  have d32: "block r dvd 2 ^ 32" unfolding blk using blk(2) by (rule pow2_dvd_32)
  have dcur: "block r dvd cur" using cur dv d32 by (auto intro: dvd_diff)
  have c32: "c < 2 ^ 32" using fit pe b1 by linarith
  have "cur mod 2 ^ 32 = c mod 2 ^ 32" using cur by auto
  also have "\<dots> = c" using c0 c32 by (rule mod_pos_pos_trivial)
  finally have cm: "cur mod 2 ^ 32 = c" .
  have al: "ceil_div cur (block r) * block r mod 2 ^ 32 = c"
    by (simp only: ceil_div_exact[OF dcur] cm)
  have e: "(c + block r - 1) mod 2 ^ 32 = c + block r - 1"
    using c0 b1 fit pe by (intro mod_pos_pos_trivial) linarith+
  have n1: "\<not> c + block r - 1 > pe" using fit by linarith
  have n2: "\<not> c < ps" using ps by linarith
  show ?thesis
    by (simp only: place.simps Let_def js_ushr_0 al e n1 n2 if_False simp_thms)
qed

lemma place_aligned:
  assumes "pe < 2 ^ 32"
    and "\<forall>r\<in>set rs. \<exists>j\<le>32. block r = 2 ^ j \<and> req_prefix r = 32 - j"
    and "sorted_wrt (\<lambda>a b. block b dvd block a) rs"
    and "\<forall>r\<in>set rs. block r dvd c"
    and "0 \<le> c" "ps \<le> c"
    and "c + sum_list (map block rs) \<le> pe + 1"
    and "cur = c \<or> cur = c - 2 ^ 32"
  shows "\<exists>new. place ps pe cur rs acc = Inr (acc @ new)
           \<and> (\<forall>s\<in>set new. c \<le> first_address s \<and> first_address s \<le> last_address s
                  \<and> last_address s \<le> pe)
           \<and> sorted_wrt (\<lambda>a b. last_address a < first_address b) new"
  using assms(2-)
proof (induction rs arbitrary: c cur acc)
  case Nil
  then show ?case by simp
next
  case (Cons r rs)
  from Cons.prems(1) obtain j where j: "j \<le> 32" "block r = 2 ^ j" "req_prefix r = 32 - j"
    by auto
  have b1: "1 \<le> block r" unfolding j by simp
  have nn: "\<forall>q\<in>set rs. 0 \<le> block q"
  proof
    fix q assume "q \<in> set rs"
    with Cons.prems(1) obtain i where "block q = 2 ^ i" by auto
    then show "0 \<le> block q" by simp
  qed
  then have s0: "0 \<le> sum_list (map block rs)" by (intro sum_list_nonneg) auto
  from Cons.prems(6) have fit: "c + block r \<le> pe + 1" using s0 by simp
  have c32: "c < 2 ^ 32" using fit assms(1) b1 by linarith
  let ?rec = "subnetInfo c (req_prefix r) (requested r)"
  let ?c' = "c + block r"
  have step: "place ps pe cur (r # rs) acc = place ps pe (?c' mod 2 ^ 32) rs (acc @ [?rec])"
    using j(2,1) Cons.prems(3) Cons.prems(4) fit assms(1) Cons.prems(5) Cons.prems(7)
    by (intro place_step) auto
  have cur': "?c' mod 2 ^ 32 = ?c' \<or> ?c' mod 2 ^ 32 = ?c' - 2 ^ 32"
  proof (cases "?c' < 2 ^ 32")
    case True
    with Cons.prems(4) b1 show ?thesis by simp
  next
    case False
    with fit assms(1) have "?c' = 2 ^ 32" by linarith
    then show ?thesis by simp
  qed
  have dv': "\<forall>q\<in>set rs. block q dvd ?c'"
    using Cons.prems(2,3) by auto
  obtain new where new: "place ps pe (?c' mod 2 ^ 32) rs (acc @ [?rec]) = Inr ((acc @ [?rec]) @ new)"
    "\<forall>s\<in>set new. ?c' \<le> first_address s \<and> first_address s \<le> last_address s
       \<and> last_address s \<le> pe"
    "sorted_wrt (\<lambda>a b. last_address a < first_address b) new"
    using Cons.IH[of ?c' "?c' mod 2 ^ 32" "acc @ [?rec]"] Cons.prems dv' cur' b1
    by (auto simp: add.assoc)
  have fa: "first_address ?rec = c" "last_address ?rec = c + block r - 1"
    using subnetInfo_range[OF Cons.prems(4) c32, of "req_prefix r" "requested r"] j by simp_all
  show ?case
  proof (intro exI[of _ "?rec # new"] conjI)
    show "place ps pe cur (r # rs) acc = Inr (acc @ ?rec # new)"
      using step new(1) by simp
    show "\<forall>s\<in>set (?rec # new). c \<le> first_address s \<and> first_address s \<le> last_address s
            \<and> last_address s \<le> pe"
      using fa fit new(2) b1 by auto
    show "sorted_wrt (\<lambda>a b. last_address a < first_address b) (?rec # new)"
      using fa new(2,3) by auto
  qed
qed

lemma place_pe0_step:
  assumes ok: "place ps 0 cur (r # rs) acc = Inr res"
    and blk: "block r = 2 ^ j" "j \<le> 32"
    and cur: "- (2 ^ 32) < cur" "cur < 2 ^ 32"
  shows "block r = 1 \<and> cur = 0 \<and> ps \<le> 0
         \<and> place ps 0 1 rs (acc @ [subnetInfo 0 (req_prefix r) (requested r)]) = Inr res"
proof -
  define a where "a = ceil_div cur (block r) * block r mod 2 ^ 32"
  have b1: "1 \<le> block r" unfolding blk by simp
  have a0: "0 \<le> a" "a < 2 ^ 32" unfolding a_def by simp_all
  have "block r dvd ceil_div cur (block r) * block r" by simp
  moreover have "block r dvd 2 ^ 32" unfolding blk using blk(2) by (rule pow2_dvd_32)
  ultimately have "block r dvd a" unfolding a_def by (rule dvd_mod)
  then have "2 ^ j dvd a" unfolding blk .
  with blk(2) have "a + 2 ^ j \<le> 2 ^ 32" using a0(2) by (rule aligned_room)
  then have room: "a + block r \<le> 2 ^ 32" unfolding blk .
  have e: "(a + block r - 1) mod 2 ^ 32 = a + block r - 1"
    using a0 b1 room by (intro mod_pos_pos_trivial) linarith+
  from ok have c1: "\<not> 0 < a + block r - 1" and c2: "\<not> a < ps"
    and rest: "place ps 0 ((a + block r) mod 2 ^ 32) rs
                 (acc @ [subnetInfo a (req_prefix r) (requested r)]) = Inr res"
    unfolding place.simps Let_def js_ushr_0 a_def[symmetric] e
    by (simp_all split: if_splits)
  from c1 a0 b1 have az: "a = 0" and bz: "block r = 1" by linarith+
  have "cur mod 2 ^ 32 = 0" using az unfolding a_def bz by (simp add: ceil_div_def)
  then have cz: "cur = 0"
  proof -
    assume m: "cur mod 2 ^ 32 = 0"
    show ?thesis
    proof (cases "0 \<le> cur")
      case True
      with cur(2) have "cur mod 2 ^ 32 = cur" by (intro mod_pos_pos_trivial)
      with m show ?thesis by simp
    next
      case False
      with cur(1) have "0 \<le> cur + 2 ^ 32" "cur + 2 ^ 32 < 2 ^ 32" by linarith+
      then have "(cur + 2 ^ 32) mod 2 ^ 32 = cur + 2 ^ 32" by (rule mod_pos_pos_trivial)
      with m have "cur + 2 ^ 32 = 0" by simp
      with cur(1) show ?thesis by linarith
    qed
  qed
  from rest have "place ps 0 1 rs (acc @ [subnetInfo 0 (req_prefix r) (requested r)]) = Inr res"
    unfolding az bz by simp
  with az bz cz c2 show ?thesis by simp
qed

lemma place_pe0:
  assumes ok: "place ps 0 cur rs acc = Inr res"
    and blk: "\<forall>r\<in>set rs. \<exists>j\<le>32. block r = 2 ^ j \<and> req_prefix r = 32 - j"
    and cur: "- (2 ^ 32) < cur" "cur < 2 ^ 32"
  shows "res = acc \<or> (cur = 0 \<and> ps \<le> 0 \<and> (\<exists>n. res = acc @ [subnetInfo 0 32 n]))"
proof (cases rs)
  case Nil
  with ok show ?thesis by simp
next
  case (Cons r rs')
  with blk obtain j where j: "j \<le> 32" "block r = 2 ^ j" "req_prefix r = 32 - j" by auto
  from place_pe0_step[OF ok[unfolded Cons] j(2,1) cur]
  have s: "block r = 1" "cur = 0" "ps \<le> 0"
    "place ps 0 1 rs' (acc @ [subnetInfo 0 (req_prefix r) (requested r)]) = Inr res"
    by simp_all
  from s(1) j have "(2 :: int) ^ j = 2 ^ 0" by simp
  then have "j = 0" by (simp only: power_inject_exp)
  with j have p32: "req_prefix r = 32" by simp
  show ?thesis
  proof (cases rs')
    case Nil
    with s p32 show ?thesis by auto
  next
    case (Cons r2 rs'')
    with blk \<open>rs = r # rs'\<close> obtain i where i: "i \<le> 32" "block r2 = 2 ^ i" by auto
    from place_pe0_step[OF s(4)[unfolded Cons] i(2,1)] show ?thesis by simp
  qed
qed

section \<open>The whole allocation\<close>

text \<open>
  A successful call passed the capacity check and the placement loop on the sorted
  requirements; its records correspond to them one to one.
\<close>

lemma allocate_Inr:
  assumes "allocateVlsm c hs = Inr recs"
  obtains p resolved where "parseCidr c = Inr p" "resolve_all hs = Inr resolved"
    "\<not> js_gt (Num (sum_list (map block (sort_by compare resolved)))) (primary_total p)"
    "place (networkInt p) (broadcastInt p) (networkInt p) (sort_by compare resolved) [] = Inr recs"
  using assms unfolding allocateVlsm_def Let_def foldl_block_sum
  by (auto split: sum.splits if_splits option.splits)

lemma resolved_block:
  assumes "resolve h = Inr r"
  shows "\<exists>j\<le>32. block r = 2 ^ j \<and> req_prefix r = 32 - j"
  using resolve_Inr(3,4)[OF assms] by (intro exI[of _ "32 - req_prefix r"]) simp

lemma sorted_reqs:
  assumes "resolve_all hs = Inr resolved"
  shows "\<forall>r\<in>set (sort_by compare resolved). resolve (Num (requested r)) = Inr r"
    and "sorted_wrt (\<lambda>a b. block b dvd block a) (sort_by compare resolved)"
proof -
  show r: "\<forall>r\<in>set (sort_by compare resolved). resolve (Num (requested r)) = Inr r"
    using resolve_all_Inr[OF assms] by (simp add: set_sort_by)
  have "block b dvd block a"
    if "a \<in> set (sort_by compare resolved)" "b \<in> set (sort_by compare resolved)"
      "compare a b \<le> 0" for a b
  proof -
    from r that have ra: "resolve (Num (requested a)) = Inr a"
      and rb: "resolve (Num (requested b)) = Inr b" by auto
    from that(3) have "requested b \<le> requested a" unfolding compare_le_iff by auto
    from resolved_mono[OF ra rb this] have "32 - req_prefix b \<le> 32 - req_prefix a" by simp
    then have "(2 :: int) ^ (32 - req_prefix b) dvd 2 ^ (32 - req_prefix a)"
      by (rule le_imp_power_dvd)
    then show ?thesis by (simp only: resolve_Inr(4)[OF ra] resolve_Inr(4)[OF rb])
  qed
  with sorted_sort_by[of resolved]
  show "sorted_wrt (\<lambda>a b. block b dvd block a) (sort_by compare resolved)"
    by (rule sorted_wrt_mono_rel[rotated]) 
qed

lemma block_le_sum:
  assumes "\<forall>q\<in>set rs. 0 \<le> block q" "r \<in> set rs"
  shows "block r \<le> sum_list (map block rs)"
  using assms
proof (induction rs)
  case Nil
  then show ?case by simp
next
  case (Cons q rs)
  have "0 \<le> sum_list (map block rs)" using Cons.prems(1) by (intro sum_list_nonneg) auto
  with Cons show ?case by auto
qed

lemma allocate_layout:
  assumes ok: "allocateVlsm c hs = Inr recs" and pc: "parseCidr c = Inr p"
  shows "(\<forall>s\<in>set recs. networkInt p mod 2 ^ 32 \<le> first_address s
            \<and> networkInt p \<le> first_address s \<and> first_address s \<le> last_address s
            \<and> last_address s \<le> broadcastInt p)
         \<and> sorted_wrt (\<lambda>a b. last_address a < first_address b) recs"
proof -
  from ok pc obtain resolved where
    rs: "resolve_all hs = Inr resolved"
    and cap: "\<not> js_gt (Num (sum_list (map block (sort_by compare resolved)))) (primary_total p)"
    and pl: "place (networkInt p) (broadcastInt p) (networkInt p) (sort_by compare resolved) []
               = Inr recs"
    by (auto elim!: allocate_Inr)
  let ?reqs = "sort_by compare resolved"
  note req = sorted_reqs[OF rs]
  have blk: "\<forall>r\<in>set ?reqs. \<exists>j\<le>32. block r = 2 ^ j \<and> req_prefix r = 32 - j"
    using req(1) resolved_block by blast
  from parseCidr_Inr[OF pc] consider
    (nan) "primary_total p = NaN" "broadcastInt p = 0"
      "- (2 ^ 32) < networkInt p" "networkInt p < 2 ^ 32"
  | (num) k where "k \<le> 32" "primary_total p = Num (2 ^ k)"
      "2 ^ k dvd networkInt p mod 2 ^ 32"
      "networkInt p mod 2 ^ 32 + 2 ^ k \<le> 2 ^ 32"
      "broadcastInt p = networkInt p mod 2 ^ 32 + 2 ^ k - 1"
      "networkInt p = networkInt p mod 2 ^ 32
        \<or> networkInt p = networkInt p mod 2 ^ 32 - 2 ^ 32"
    by blast
  then show ?thesis
  proof cases
    case nan
    note t = nan(1) and b = nan(2) and n = nan(3,4)
    from place_pe0[OF pl[unfolded b] blk n]
    consider "recs = []" | n' where "networkInt p = 0" "recs = [subnetInfo 0 32 n']" by auto
    then show ?thesis
    proof cases
      case 1
      then show ?thesis by simp
    next
      case 2
      have "first_address (subnetInfo 0 32 n') = 0" "last_address (subnetInfo 0 32 n') = 0"
        using subnetInfo_range[of 0 32 n'] by simp_all
      with 2 b show ?thesis by simp
    qed
  next
    case num
    note k = num(1) and t = num(2) and d = num(3) and room = num(4) and b = num(5)
      and n = num(6)
    define S where "S = networkInt p mod 2 ^ 32"
    have S0: "0 \<le> S" unfolding S_def by simp
    have n': "networkInt p = S \<or> networkInt p = S - 2 ^ 32" using n unfolding S_def .
    have nS: "networkInt p \<le> S" using n' by auto
    from cap t have sum: "sum_list (map block ?reqs) \<le> 2 ^ k" by (simp add: js_gt_def)
    have nn: "\<forall>q\<in>set ?reqs. 0 \<le> block q"
    proof
      fix q assume "q \<in> set ?reqs"
      with blk obtain j where "block q = 2 ^ j" by auto
      then show "0 \<le> block q" by simp
    qed
    have dv: "\<forall>r\<in>set ?reqs. block r dvd S"
    proof
      fix r assume r: "r \<in> set ?reqs"
      with blk obtain j where j: "block r = 2 ^ j" by auto
      from block_le_sum[OF nn r] sum have "(2 :: int) ^ j \<le> 2 ^ k" unfolding j by linarith
      then have "j \<le> k" by simp
      then have "(2 :: int) ^ j dvd 2 ^ k" by (rule le_imp_power_dvd)
      from this d show "block r dvd S" unfolding j S_def by (rule dvd_trans)
    qed
    have b': "broadcastInt p = S + 2 ^ k - 1" using b unfolding S_def .
    have room': "S + 2 ^ k \<le> 2 ^ 32" using room unfolding S_def .
    have pe: "broadcastInt p < 2 ^ 32" using b' room' by linarith
    have fit: "S + sum_list (map block ?reqs) \<le> broadcastInt p + 1"
      using sum b' by linarith
    from place_aligned[OF pe blk req(2) dv S0 nS fit n', of "[]"] pl
    have "\<forall>s\<in>set recs. S \<le> first_address s \<and> first_address s \<le> last_address s
            \<and> last_address s \<le> broadcastInt p"
      and "sorted_wrt (\<lambda>a b. last_address a < first_address b) recs"
      by auto
    with nS show ?thesis unfolding S_def by fastforce
  qed
qed

lemma list_all2_set1:
  "list_all2 R xs ys \<Longrightarrow> x \<in> set xs \<Longrightarrow> \<exists>y\<in>set ys. R x y"
  by (induction rule: list_all2_induct) auto

lemma list_all2_sorted_wrt:
  assumes "list_all2 R xs ys" "sorted_wrt Q ys"
    and "\<And>x x' y y'. R x y \<Longrightarrow> R x' y' \<Longrightarrow> Q y y' \<Longrightarrow> P x x'"
  shows "sorted_wrt P xs"
  using assms(1,2)
proof (induction rule: list_all2_induct)
  case Nil
  then show ?case by simp
next
  case (Cons x xs y ys)
  have "\<forall>x'\<in>set xs. P x x'"
  proof
    fix x' assume "x' \<in> set xs"
    with Cons.hyps(2) obtain y' where "y' \<in> set ys" "R x' y'"
      by (blast dest: list_all2_set1)
    with Cons.prems Cons.hyps(1) show "P x x'" by (auto intro: assms(3))
  qed
  with Cons show ?case by simp
qed

lemma list_all2_map_eq:
  assumes "list_all2 R xs ys" "\<And>x y. R x y \<Longrightarrow> f x = g y"
  shows "map f xs = map g ys"
  using assms(1) by (induction rule: list_all2_induct) (auto intro: assms(2))

lemma allocate_shape:
  assumes "allocateVlsm c hs = Inr recs"
  obtains reqs where
    "list_all2 (\<lambda>s q. \<exists>a. s = subnetInfo a (req_prefix q) (requested q)) recs reqs"
    "\<forall>q\<in>set reqs. resolve (Num (requested q)) = Inr q"
    "sorted_wrt (\<lambda>a b. compare a b \<le> 0) reqs"
    "mset (map (\<lambda>q. Num (requested q)) reqs) = mset hs"
proof -
  from assms obtain p :: primary and resolved where
    rs: "resolve_all hs = Inr resolved"
    and pl: "place (networkInt p) (broadcastInt p) (networkInt p) (sort_by compare resolved) []
               = Inr recs"
    by (auto elim!: allocate_Inr)
  from place_shape[OF pl]
  have a: "list_all2 (\<lambda>s q. \<exists>a. s = subnetInfo a (req_prefix q) (requested q)) recs
             (sort_by compare resolved)" by simp
  have "mset (map (\<lambda>q. Num (requested q)) (sort_by compare resolved))
          = image_mset (\<lambda>q. Num (requested q)) (mset (sort_by compare resolved))" by simp
  also have "\<dots> = image_mset (\<lambda>q. Num (requested q)) (mset resolved)"
    by (simp only: mset_sort_by)
  also have "\<dots> = mset (map (\<lambda>q. Num (requested q)) resolved)" by simp
  also have "\<dots> = mset hs" using resolve_all_Inr[OF rs] by simp
  finally have m: "mset (map (\<lambda>q. Num (requested q)) (sort_by compare resolved)) = mset hs" .
  from a sorted_reqs(1)[OF rs] sorted_sort_by[of resolved] m show ?thesis by (rule that)
qed

lemma usable_le_total: "usable_of p \<le> 2 ^ (32 - p)"
  by (simp add: usable_of_def)

lemma ipToInt_range: "0 \<le> ipToInt s \<and> ipToInt s < 4294967296"
proof -
  have "0 \<le> js_ushr x (Num 0) \<and> js_ushr x (Num 0) < 4294967296" for x
    using uint_lt2p[of "drop_bit (shift_count (Num 0)) (to_word x)"]
    by (simp add: js_ushr_def)
  then show ?thesis unfolding ipToInt_def by blast
qed

lemma maskInt_uint: "\<exists>w :: 32 word. maskInt p = uint w"
  by (auto simp: maskInt_def js_ushr_def intro: exI[of _ 0])

section \<open>The scenarios, evaluated\<close>

lemma scenario_A:
  "allocateVlsm ''192.168.0.0/24'' [Num 50, Num 20, Num 10] =
     Inr [\<lparr>network = ''192.168.0.0'', prefix = 26, cidr = ''192.168.0.0/26'',
            subnet_mask = ''255.255.255.192'', wildcard_mask = ''0.0.0.63'',
            total_addresses = 64, usable_hosts = 62, requested_hosts = 50,
            first_usable = ''192.168.0.1'', last_usable = ''192.168.0.62'',
            broadcast = ''192.168.0.63'', wasted_addresses = 14\<rparr>,
          \<lparr>network = ''192.168.0.64'', prefix = 27, cidr = ''192.168.0.64/27'',
            subnet_mask = ''255.255.255.224'', wildcard_mask = ''0.0.0.31'',
            total_addresses = 32, usable_hosts = 30, requested_hosts = 20,
            first_usable = ''192.168.0.65'', last_usable = ''192.168.0.94'',
            broadcast = ''192.168.0.95'', wasted_addresses = 12\<rparr>,
          \<lparr>network = ''192.168.0.96'', prefix = 28, cidr = ''192.168.0.96/28'',
            subnet_mask = ''255.255.255.240'', wildcard_mask = ''0.0.0.15'',
            total_addresses = 16, usable_hosts = 14, requested_hosts = 10,
            first_usable = ''192.168.0.97'', last_usable = ''192.168.0.110'',
            broadcast = ''192.168.0.111'', wasted_addresses = 6\<rparr>]"
  by code_simp

lemma scenario_B:
  "allocateVlsm ''10.0.0.0/16'' [Num 1000, Num 2000, Num 50] =
     Inr [\<lparr>network = ''10.0.0.0'', prefix = 21, cidr = ''10.0.0.0/21'',
            subnet_mask = ''255.255.248.0'', wildcard_mask = ''0.0.7.255'',
            total_addresses = 2048, usable_hosts = 2046, requested_hosts = 2000,
            first_usable = ''10.0.0.1'', last_usable = ''10.0.7.254'',
            broadcast = ''10.0.7.255'', wasted_addresses = 48\<rparr>,
          \<lparr>network = ''10.0.8.0'', prefix = 22, cidr = ''10.0.8.0/22'',
            subnet_mask = ''255.255.252.0'', wildcard_mask = ''0.0.3.255'',
            total_addresses = 1024, usable_hosts = 1022, requested_hosts = 1000,
            first_usable = ''10.0.8.1'', last_usable = ''10.0.11.254'',
            broadcast = ''10.0.11.255'', wasted_addresses = 24\<rparr>,
          \<lparr>network = ''10.0.12.0'', prefix = 26, cidr = ''10.0.12.0/26'',
            subnet_mask = ''255.255.255.192'', wildcard_mask = ''0.0.0.63'',
            total_addresses = 64, usable_hosts = 62, requested_hosts = 50,
            first_usable = ''10.0.12.1'', last_usable = ''10.0.12.62'',
            broadcast = ''10.0.12.63'', wasted_addresses = 14\<rparr>]"
  by code_simp

lemma scenario_C:
  "allocateVlsm ''192.168.1.0/30'' [Num 2] =
     Inr [\<lparr>network = ''192.168.1.0'', prefix = 30, cidr = ''192.168.1.0/30'',
            subnet_mask = ''255.255.255.252'', wildcard_mask = ''0.0.0.3'',
            total_addresses = 4, usable_hosts = 2, requested_hosts = 2,
            first_usable = ''192.168.1.1'', last_usable = ''192.168.1.2'',
            broadcast = ''192.168.1.3'', wasted_addresses = 2\<rparr>]"
  by code_simp

lemma parse_A:
  "parseCidr ''192.168.0.0/24'' =
     Inr \<lparr>networkInt = - 1062731776, primary_prefix = Num 24, primary_total = Num 256,
           broadcastInt = 3232235775\<rparr>"
  by code_simp

section \<open>Containment and disjointness of the plan\<close>

text \<open>
  C1: for every successful call of \<open>allocateVlsm\<close>, the address range
  \<open>[network, network + total_addresses - 1]\<close> of every returned record lies within the
  primary range \<open>[networkInt, broadcastInt]\<close> that \<open>parseCidr\<close> returns, and the ranges
  of any two distinct records are disjoint. \<open>parseCidr\<close> computes \<open>networkInt\<close> with
  \<open>&\<close>, so it is a signed 32-bit value (negative from 128.0.0.0 on); the lower bound
  holds for it and for the address it denotes, \<open>networkInt mod 2 ^ 32\<close>.
\<close>

theorem allocate_within_and_disjoint:
  assumes "allocateVlsm c hs = Inr recs" and "parseCidr c = Inr p"
  shows "(\<forall>s\<in>set recs.
            networkInt p mod 2 ^ 32 \<le> first_address s \<and> networkInt p \<le> first_address s
            \<and> first_address s + total_addresses s - 1 \<le> broadcastInt p)
         \<and> (\<forall>i j. i < length recs \<and> j < length recs \<and> i \<noteq> j \<longrightarrow>
               first_address (recs ! i) + total_addresses (recs ! i) - 1 < first_address (recs ! j)
               \<or> first_address (recs ! j) + total_addresses (recs ! j) - 1
                    < first_address (recs ! i))"
proof -
  note l = allocate_layout[OF assms]
  from l have s: "sorted_wrt (\<lambda>a b. last_address a < first_address b) recs" by simp
  have d: "last_address (recs ! i) < first_address (recs ! j)
           \<or> last_address (recs ! j) < first_address (recs ! i)"
    if "i < length recs" "j < length recs" "i \<noteq> j" for i j
  proof (cases "i < j")
    case True
    with s that show ?thesis by (auto simp: sorted_wrt_iff_nth_less)
  next
    case False
    with that have "j < i" by simp
    with s that show ?thesis by (auto simp: sorted_wrt_iff_nth_less)
  qed
  from l d show ?thesis unfolding last_address_def by blast
qed

text \<open>
  C1 at scenario A: the primary range is \<open>[3232235520, 3232235775]\<close> (192.168.0.0/24);
  the second record lies within it and is disjoint from the first.
\<close>

theorem allocate_within_and_disjoint_witness:
  "(let recs =
         [\<lparr>network = ''192.168.0.0'', prefix = 26, cidr = ''192.168.0.0/26'',
            subnet_mask = ''255.255.255.192'', wildcard_mask = ''0.0.0.63'',
            total_addresses = 64, usable_hosts = 62, requested_hosts = 50,
            first_usable = ''192.168.0.1'', last_usable = ''192.168.0.62'',
            broadcast = ''192.168.0.63'', wasted_addresses = 14\<rparr>,
          \<lparr>network = ''192.168.0.64'', prefix = 27, cidr = ''192.168.0.64/27'',
            subnet_mask = ''255.255.255.224'', wildcard_mask = ''0.0.0.31'',
            total_addresses = 32, usable_hosts = 30, requested_hosts = 20,
            first_usable = ''192.168.0.65'', last_usable = ''192.168.0.94'',
            broadcast = ''192.168.0.95'', wasted_addresses = 12\<rparr>,
          \<lparr>network = ''192.168.0.96'', prefix = 28, cidr = ''192.168.0.96/28'',
            subnet_mask = ''255.255.255.240'', wildcard_mask = ''0.0.0.15'',
            total_addresses = 16, usable_hosts = 14, requested_hosts = 10,
            first_usable = ''192.168.0.97'', last_usable = ''192.168.0.110'',
            broadcast = ''192.168.0.111'', wasted_addresses = 6\<rparr>];
        p = \<lparr>networkInt = - 1062731776, primary_prefix = Num 24, primary_total = Num 256,
              broadcastInt = 3232235775\<rparr>
    in allocateVlsm ''192.168.0.0/24'' [Num 50, Num 20, Num 10] = Inr recs
       \<and> parseCidr ''192.168.0.0/24'' = Inr p
       \<and> networkInt p mod 2 ^ 32 \<le> first_address (recs ! 1)
       \<and> first_address (recs ! 1) + total_addresses (recs ! 1) - 1 \<le> broadcastInt p
       \<and> (first_address (recs ! 0) + total_addresses (recs ! 0) - 1 < first_address (recs ! 1)
          \<or> first_address (recs ! 1) + total_addresses (recs ! 1) - 1
               < first_address (recs ! 0)))"
proof -
  note t = allocate_within_and_disjoint[OF scenario_A parse_A]
  note t1 = t[THEN conjunct1, rule_format, of
      "\<lparr>network = ''192.168.0.64'', prefix = 27, cidr = ''192.168.0.64/27'',
         subnet_mask = ''255.255.255.224'', wildcard_mask = ''0.0.0.31'',
         total_addresses = 32, usable_hosts = 30, requested_hosts = 20,
         first_usable = ''192.168.0.65'', last_usable = ''192.168.0.94'',
         broadcast = ''192.168.0.95'', wasted_addresses = 12\<rparr>"]
  note t2 = t[THEN conjunct2, rule_format, of 0 1]
  from t1 t2 scenario_A parse_A show ?thesis unfolding Let_def by simp
qed

section \<open>The prefix sizer on 0, 1 and 2 hosts\<close>

text \<open>
  C2, as stated: \<open>calcMinPrefixForHosts\<close> returns 32 for 0 hosts and 30 for 1 and for
  2 hosts. The scan starts at prefix 32, whose capacity is 1, so one host already
  resolves to prefix 32: the statement is false.
\<close>

theorem calcMinPrefixForHosts_D_counterexample:
  "\<not> (calcMinPrefixForHosts (Num 0) = Inr 32
      \<and> calcMinPrefixForHosts (Num 1) = Inr 30
      \<and> calcMinPrefixForHosts (Num 2) = Inr 30)"
  by code_simp

text \<open>
  C2, amended: \<open>calcMinPrefixForHosts\<close> returns 32 for host count 0, 32 for host count 1
  and 30 for host count 2.
\<close>

theorem calcMinPrefixForHosts_D:
  "calcMinPrefixForHosts (Num 0) = Inr 32
   \<and> calcMinPrefixForHosts (Num 1) = Inr 32
   \<and> calcMinPrefixForHosts (Num 2) = Inr 30"
  by code_simp

section \<open>Scenario C: two hosts in a /30\<close>

text \<open>
  C3, as stated: \<open>allocateVlsm\<close> on 192.168.1.0/30 with the requirement \<open>[2]\<close> fails.
  It does not: the call returns a result.
\<close>

theorem allocate_C_counterexample:
  "\<not> isl (allocateVlsm ''192.168.1.0/30'' [Num 2])"
  by (simp add: scenario_C)

text \<open>
  C3, amended: \<open>allocateVlsm\<close> on 192.168.1.0/30 with the requirement \<open>[2]\<close> succeeds
  with the single record 192.168.1.0/30 of 4 addresses, 2 of them usable. The capacity
  check compares block sizes (4 against 4), not usable hosts.
\<close>

theorem allocate_C:
  "allocateVlsm ''192.168.1.0/30'' [Num 2] =
     Inr [\<lparr>network = ''192.168.1.0'', prefix = 30, cidr = ''192.168.1.0/30'',
            subnet_mask = ''255.255.255.252'', wildcard_mask = ''0.0.0.3'',
            total_addresses = 4, usable_hosts = 2, requested_hosts = 2,
            first_usable = ''192.168.1.1'', last_usable = ''192.168.1.2'',
            broadcast = ''192.168.1.3'', wasted_addresses = 2\<rparr>]"
  by (rule scenario_C)

section \<open>ipToInt on malformed and on well-formed text\<close>

text \<open>
  C4 at the inputs \<open>1.2.3\<close>, \<open>256.0.0.0\<close> and \<open>a.b.c.d\<close>, where a failure is required:
  \<open>ipToInt\<close> has no failure and returns 66051, 0 and 0. \<open>parseCidr\<close>, which refuses a
  wrong number of parts and a prefix out of range, and which its caller expects to
  throw on invalid input, takes the primaries \<open>a.b.c.d/24\<close> and \<open>999.1.2.3/24\<close> for
  0.0.0.0/24 and 231.1.2.0/24, and \<open>allocateVlsm\<close> plans 0.0.0.0/28 for 10 hosts in
  \<open>a.b.c.d/24\<close>.
\<close>

theorem ipToInt_accepts_malformed:
  "ipToInt ''1.2.3'' = 66051 \<and> ipToInt ''256.0.0.0'' = 0 \<and> ipToInt ''a.b.c.d'' = 0
   \<and> parseCidr ''a.b.c.d/24'' =
       Inr \<lparr>networkInt = 0, primary_prefix = Num 24, primary_total = Num 256,
             broadcastInt = 255\<rparr>
   \<and> parseCidr ''999.1.2.3/24'' =
       Inr \<lparr>networkInt = - 419364352, primary_prefix = Num 24, primary_total = Num 256,
             broadcastInt = 3875603199\<rparr>
   \<and> allocateVlsm ''a.b.c.d/24'' [Num 10] =
       Inr [\<lparr>network = ''0.0.0.0'', prefix = 28, cidr = ''0.0.0.0/28'',
              subnet_mask = ''255.255.255.240'', wildcard_mask = ''0.0.0.15'',
              total_addresses = 16, usable_hosts = 14, requested_hosts = 10,
              first_usable = ''0.0.0.1'', last_usable = ''0.0.0.14'',
              broadcast = ''0.0.0.15'', wasted_addresses = 6\<rparr>]"
  by code_simp

text \<open>
  On well-formed text the codec does what is asked of it: four dot-separated groups of
  decimal digits, each denoting a value in \<open>[0, 255]\<close>, are combined big-endian; and
  whatever the text, the result is an unsigned 32-bit value.
\<close>

lemma ipToInt_well_formed:
  assumes "a \<noteq> []" "list_all is_digit a" "digits_val a \<le> 255"
    and "b \<noteq> []" "list_all is_digit b" "digits_val b \<le> 255"
    and "c \<noteq> []" "list_all is_digit c" "digits_val c \<le> 255"
    and "d \<noteq> []" "list_all is_digit d" "digits_val d \<le> 255"
  shows "ipToInt (a @ ''.'' @ b @ ''.'' @ c @ ''.'' @ d) =
           ((int (digits_val a) * 256 + int (digits_val b)) * 256 + int (digits_val c)) * 256
             + int (digits_val d)
         \<and> (\<forall>s. 0 \<le> ipToInt s \<and> ipToInt s < 4294967296)"
proof -
  let ?v = "((int (digits_val a) * 256 + int (digits_val b)) * 256 + int (digits_val c)) * 256
             + int (digits_val d)"
  have g: "ipToInt (a @ ''.'' @ b @ ''.'' @ c @ ''.'' @ d) = ?v mod 2 ^ 32"
    using assms by (intro ipToInt_groups) (simp_all add: list_all_iff)
  have "0 \<le> ?v" by simp
  moreover have "?v \<le> ((255 * 256 + 255) * 256 + 255) * 256 + 255"
    using assms(3,6,9,12) by (intro add_mono mult_right_mono) simp_all
  then have "?v < 2 ^ 32" by simp
  ultimately have "?v mod 2 ^ 32 = ?v" by (rule mod_pos_pos_trivial)
  with g ipToInt_range show ?thesis by simp
qed

lemma ipToInt_well_formed_example:
  "ipToInt (''192'' @ ''.'' @ ''168'' @ ''.'' @ ''0'' @ ''.'' @ ''1'') = 3232235521
   \<and> list_all is_digit ''192'' \<and> digits_val ''192'' = 192
   \<and> list_all is_digit ''168'' \<and> digits_val ''168'' = 168
   \<and> list_all is_digit ''0'' \<and> digits_val ''0'' = 0
   \<and> list_all is_digit ''1'' \<and> digits_val ''1'' = 1"
proof -
  have d: "list_all is_digit ''192''" "list_all is_digit ''168''" "list_all is_digit ''0''"
    "list_all is_digit ''1''"
    by (simp_all add: is_digit_def)
  have v: "digits_val ''192'' = 192" "digits_val ''168'' = 168" "digits_val ''0'' = 0"
    "digits_val ''1'' = 1"
    by (simp_all add: digits_val_def digit_val_def)
  from ipToInt_well_formed[of "''192''" "''168''" "''0''" "''1''"] d v
  have "ipToInt (''192'' @ ''.'' @ ''168'' @ ''.'' @ ''0'' @ ''.'' @ ''1'') = 3232235521"
    by simp
  with d v show ?thesis by simp
qed

section \<open>The prefix guard of parseCidr\<close>

text \<open>
  C5 at the inputs \<open>10.0.0.0/abc\<close> and \<open>10.0.0.0/\<close>: the prefix text is not a number
  or is missing, \<open>parseInt\<close> gives \<open>NaN\<close>, both comparisons of the guard are false, and
  \<open>parseCidr\<close> returns a range with prefix \<open>NaN\<close>, size \<open>NaN\<close> and broadcast 0 instead
  of failing. A prefix of 33 is refused.
\<close>

theorem parseCidr_NaN_prefix:
  "parseCidr ''10.0.0.0/abc'' =
     Inr \<lparr>networkInt = 167772160, primary_prefix = NaN, primary_total = NaN, broadcastInt = 0\<rparr>
   \<and> parseCidr ''10.0.0.0/'' =
     Inr \<lparr>networkInt = 167772160, primary_prefix = NaN, primary_total = NaN, broadcastInt = 0\<rparr>
   \<and> parseCidr ''10.0.0.0/33'' = Inl InvalidPrefix"
  by code_simp

section \<open>Scenario A\<close>

text \<open>
  C6: \<open>allocateVlsm\<close> on 192.168.0.0/24 with the requirements \<open>[50, 20, 10]\<close> succeeds
  with exactly three records, in this order: 192.168.0.0 at prefix 26 (64 addresses, 62
  usable), 192.168.0.64 at prefix 27 (32 addresses, 30 usable), 192.168.0.96 at prefix
  28 (16 addresses, 14 usable).
\<close>

theorem allocate_A:
  "allocateVlsm ''192.168.0.0/24'' [Num 50, Num 20, Num 10] =
     Inr [\<lparr>network = ''192.168.0.0'', prefix = 26, cidr = ''192.168.0.0/26'',
            subnet_mask = ''255.255.255.192'', wildcard_mask = ''0.0.0.63'',
            total_addresses = 64, usable_hosts = 62, requested_hosts = 50,
            first_usable = ''192.168.0.1'', last_usable = ''192.168.0.62'',
            broadcast = ''192.168.0.63'', wasted_addresses = 14\<rparr>,
          \<lparr>network = ''192.168.0.64'', prefix = 27, cidr = ''192.168.0.64/27'',
            subnet_mask = ''255.255.255.224'', wildcard_mask = ''0.0.0.31'',
            total_addresses = 32, usable_hosts = 30, requested_hosts = 20,
            first_usable = ''192.168.0.65'', last_usable = ''192.168.0.94'',
            broadcast = ''192.168.0.95'', wasted_addresses = 12\<rparr>,
          \<lparr>network = ''192.168.0.96'', prefix = 28, cidr = ''192.168.0.96/28'',
            subnet_mask = ''255.255.255.240'', wildcard_mask = ''0.0.0.15'',
            total_addresses = 16, usable_hosts = 14, requested_hosts = 10,
            first_usable = ''192.168.0.97'', last_usable = ''192.168.0.110'',
            broadcast = ''192.168.0.111'', wasted_addresses = 6\<rparr>]"
  by (rule scenario_A)

section \<open>The placement order\<close>

text \<open>
  C7: the records of a successful call are in the order of the sorted requirements,
  requested hosts descending and, among equal requests, prefix ascending; they carry
  exactly the requested host counts of the input; and this order is the placement
  order, each record placed after the one before it. In particular, on 10.0.0.0/16
  with \<open>[1000, 2000, 50]\<close> the 2000-host requirement comes first at 10.0.0.0/21, then
  the 1000-host requirement at 10.0.8.0/22, then the 50-host requirement at
  10.0.12.0/26.
\<close>

theorem allocate_order:
  assumes "allocateVlsm c hs = Inr recs"
  shows "sorted_wrt (\<lambda>a b. requested_hosts b < requested_hosts a
                       \<or> (requested_hosts b = requested_hosts a \<and> prefix a \<le> prefix b)) recs
         \<and> mset (map (\<lambda>s. Num (requested_hosts s)) recs) = mset hs
         \<and> sorted_wrt (\<lambda>a b. last_address a < first_address b) recs
         \<and> allocateVlsm ''10.0.0.0/16'' [Num 1000, Num 2000, Num 50] =
             Inr [\<lparr>network = ''10.0.0.0'', prefix = 21, cidr = ''10.0.0.0/21'',
                    subnet_mask = ''255.255.248.0'', wildcard_mask = ''0.0.7.255'',
                    total_addresses = 2048, usable_hosts = 2046, requested_hosts = 2000,
                    first_usable = ''10.0.0.1'', last_usable = ''10.0.7.254'',
                    broadcast = ''10.0.7.255'', wasted_addresses = 48\<rparr>,
                  \<lparr>network = ''10.0.8.0'', prefix = 22, cidr = ''10.0.8.0/22'',
                    subnet_mask = ''255.255.252.0'', wildcard_mask = ''0.0.3.255'',
                    total_addresses = 1024, usable_hosts = 1022, requested_hosts = 1000,
                    first_usable = ''10.0.8.1'', last_usable = ''10.0.11.254'',
                    broadcast = ''10.0.11.255'', wasted_addresses = 24\<rparr>,
                  \<lparr>network = ''10.0.12.0'', prefix = 26, cidr = ''10.0.12.0/26'',
                    subnet_mask = ''255.255.255.192'', wildcard_mask = ''0.0.0.63'',
                    total_addresses = 64, usable_hosts = 62, requested_hosts = 50,
                    first_usable = ''10.0.12.1'', last_usable = ''10.0.12.62'',
                    broadcast = ''10.0.12.63'', wasted_addresses = 14\<rparr>]"
proof -
  from assms obtain reqs where
    a: "list_all2 (\<lambda>s q. \<exists>a. s = subnetInfo a (req_prefix q) (requested q)) recs reqs"
    and s: "sorted_wrt (\<lambda>a b. compare a b \<le> 0) reqs"
    and m: "mset (map (\<lambda>q. Num (requested q)) reqs) = mset hs"
    by (rule allocate_shape)
  have 1: "sorted_wrt (\<lambda>a b. requested_hosts b < requested_hosts a
                       \<or> (requested_hosts b = requested_hosts a \<and> prefix a \<le> prefix b)) recs"
    using a s
  proof (rule list_all2_sorted_wrt)
    fix x x' y y'
    assume "\<exists>a. x = subnetInfo a (req_prefix y) (requested y)"
      "\<exists>a. x' = subnetInfo a (req_prefix y') (requested y')" "compare y y' \<le> 0"
    then show "requested_hosts x' < requested_hosts x
               \<or> (requested_hosts x' = requested_hosts x \<and> prefix x \<le> prefix x')"
      unfolding compare_le_iff by (auto simp: subnetInfo_fields)
  qed
  have "map (\<lambda>s. Num (requested_hosts s)) recs = map (\<lambda>q. Num (requested q)) reqs"
    using a by (rule list_all2_map_eq) (auto simp: subnetInfo_fields)
  with m have 2: "mset (map (\<lambda>s. Num (requested_hosts s)) recs) = mset hs" by simp
  from assms obtain p where "parseCidr c = Inr p" by (auto elim!: allocate_Inr)
  from allocate_layout[OF assms this]
  have 3: "sorted_wrt (\<lambda>a b. last_address a < first_address b) recs" by simp
  from 1 2 3 scenario_B show ?thesis by simp
qed

text \<open>C7 at scenario B.\<close>

theorem allocate_order_witness:
  "(let recs =
         [\<lparr>network = ''10.0.0.0'', prefix = 21, cidr = ''10.0.0.0/21'',
            subnet_mask = ''255.255.248.0'', wildcard_mask = ''0.0.7.255'',
            total_addresses = 2048, usable_hosts = 2046, requested_hosts = 2000,
            first_usable = ''10.0.0.1'', last_usable = ''10.0.7.254'',
            broadcast = ''10.0.7.255'', wasted_addresses = 48\<rparr>,
          \<lparr>network = ''10.0.8.0'', prefix = 22, cidr = ''10.0.8.0/22'',
            subnet_mask = ''255.255.252.0'', wildcard_mask = ''0.0.3.255'',
            total_addresses = 1024, usable_hosts = 1022, requested_hosts = 1000,
            first_usable = ''10.0.8.1'', last_usable = ''10.0.11.254'',
            broadcast = ''10.0.11.255'', wasted_addresses = 24\<rparr>,
          \<lparr>network = ''10.0.12.0'', prefix = 26, cidr = ''10.0.12.0/26'',
            subnet_mask = ''255.255.255.192'', wildcard_mask = ''0.0.0.63'',
            total_addresses = 64, usable_hosts = 62, requested_hosts = 50,
            first_usable = ''10.0.12.1'', last_usable = ''10.0.12.62'',
            broadcast = ''10.0.12.63'', wasted_addresses = 14\<rparr>]
    in allocateVlsm ''10.0.0.0/16'' [Num 1000, Num 2000, Num 50] = Inr recs
       \<and> sorted_wrt (\<lambda>a b. requested_hosts b < requested_hosts a
                       \<or> (requested_hosts b = requested_hosts a \<and> prefix a \<le> prefix b)) recs
       \<and> mset (map (\<lambda>s. Num (requested_hosts s)) recs) = mset [Num 1000, Num 2000, Num 50]
       \<and> sorted_wrt (\<lambda>a b. last_address a < first_address b) recs)"
  using allocate_order[OF scenario_B] scenario_B unfolding Let_def by simp

section \<open>Mask and wildcard\<close>

text \<open>
  C8: the 32-bit mask value of \<open>maskFromPrefix\<close> and the 32-bit wildcard value of
  \<open>wildcardFromPrefix\<close> have bitwise AND 0 and bitwise OR \<open>0xFFFFFFFF\<close>. This holds for
  every prefix the functions can be given, in particular for every prefix in
  \<open>[0, 32]\<close>.
\<close>

theorem mask_wildcard_complement:
  "maskInt p AND wildInt p = 0 \<and> maskInt p OR wildInt p = 4294967295"
proof -
  obtain w :: "32 word" where w: "maskInt p = uint w" using maskInt_uint by blast
  have wi: "wildInt p = uint (NOT w)"
    by (simp add: wildInt_def js_ushr_def js_not_def shift_count_simps w)
  have a: "uint w AND uint (NOT w) = 0" using uint_and[of w "NOT w"] by simp
  have m1: "uint (- 1 :: 32 word) = 4294967295"
    by (simp add: unsigned_minus_1_eq_mask mask_eq_exp_minus_1)
  have b: "uint w OR uint (NOT w) = 4294967295" using uint_or[of w "NOT w"] m1 by simp
  show ?thesis by (simp add: w wi a b)
qed

section \<open>Increasing address order\<close>

text \<open>
  C9: the records of a successful call are in strictly increasing address order: the
  network address of each record is greater than the last address
  \<open>network + total_addresses - 1\<close> of the record before it (and of every earlier one).
\<close>

theorem allocate_increasing:
  assumes "allocateVlsm c hs = Inr recs"
  shows "sorted_wrt (\<lambda>a b. last_address a < first_address b) recs
         \<and> (\<forall>i. Suc i < length recs \<longrightarrow>
               first_address (recs ! i) + total_addresses (recs ! i) - 1
                 < first_address (recs ! Suc i))"
proof -
  from assms obtain p where "parseCidr c = Inr p" by (auto elim!: allocate_Inr)
  from allocate_layout[OF assms this]
  have s: "sorted_wrt (\<lambda>a b. last_address a < first_address b) recs" by simp
  then have "\<forall>i. Suc i < length recs \<longrightarrow> last_address (recs ! i) < first_address (recs ! Suc i)"
    by (auto simp: sorted_wrt_iff_nth_less)
  with s show ?thesis by (simp add: last_address_def)
qed

text \<open>C9 at scenario A.\<close>

theorem allocate_increasing_witness:
  "(let recs =
         [\<lparr>network = ''192.168.0.0'', prefix = 26, cidr = ''192.168.0.0/26'',
            subnet_mask = ''255.255.255.192'', wildcard_mask = ''0.0.0.63'',
            total_addresses = 64, usable_hosts = 62, requested_hosts = 50,
            first_usable = ''192.168.0.1'', last_usable = ''192.168.0.62'',
            broadcast = ''192.168.0.63'', wasted_addresses = 14\<rparr>,
          \<lparr>network = ''192.168.0.64'', prefix = 27, cidr = ''192.168.0.64/27'',
            subnet_mask = ''255.255.255.224'', wildcard_mask = ''0.0.0.31'',
            total_addresses = 32, usable_hosts = 30, requested_hosts = 20,
            first_usable = ''192.168.0.65'', last_usable = ''192.168.0.94'',
            broadcast = ''192.168.0.95'', wasted_addresses = 12\<rparr>,
          \<lparr>network = ''192.168.0.96'', prefix = 28, cidr = ''192.168.0.96/28'',
            subnet_mask = ''255.255.255.240'', wildcard_mask = ''0.0.0.15'',
            total_addresses = 16, usable_hosts = 14, requested_hosts = 10,
            first_usable = ''192.168.0.97'', last_usable = ''192.168.0.110'',
            broadcast = ''192.168.0.111'', wasted_addresses = 6\<rparr>]
    in allocateVlsm ''192.168.0.0/24'' [Num 50, Num 20, Num 10] = Inr recs
       \<and> sorted_wrt (\<lambda>a b. last_address a < first_address b) recs
       \<and> first_address (recs ! 0) + total_addresses (recs ! 0) - 1 < first_address (recs ! 1)
       \<and> first_address (recs ! 1) + total_addresses (recs ! 1) - 1 < first_address (recs ! 2))"
proof -
  note t = allocate_increasing[OF scenario_A]
  note t0 = t[THEN conjunct2, rule_format, of 0]
  note t1 = t[THEN conjunct2, rule_format, of 1]
  from t t0 t1 scenario_A show ?thesis unfolding Let_def by simp
qed

section \<open>The block accommodates the request\<close>

text \<open>
  C10: every record of a successful call has \<open>requested_hosts \<le> usable_hosts\<close> and
  \<open>wasted_addresses = total_addresses - requested_hosts\<close>, which is not negative.
\<close>

theorem allocate_hosts_fit:
  assumes "allocateVlsm c hs = Inr recs" and "s \<in> set recs"
  shows "requested_hosts s \<le> usable_hosts s
         \<and> wasted_addresses s = total_addresses s - requested_hosts s
         \<and> 0 \<le> wasted_addresses s"
proof -
  from assms(1) obtain reqs where
    a: "list_all2 (\<lambda>s q. \<exists>a. s = subnetInfo a (req_prefix q) (requested q)) recs reqs"
    and r: "\<forall>q\<in>set reqs. resolve (Num (requested q)) = Inr q"
    by (rule allocate_shape)
  from list_all2_set1[OF a assms(2)] obtain q a where q: "q \<in> set reqs"
    and s: "s = subnetInfo a (req_prefix q) (requested q)"
    by blast
  from r q have "resolve (Num (requested q)) = Inr q" by simp
  from resolve_Inr(5)[OF this] have u: "requested q \<le> usable_of (req_prefix q)" .
  with usable_le_total[of "req_prefix q"] have "requested q \<le> 2 ^ (32 - req_prefix q)"
    by linarith
  with u show ?thesis unfolding s subnetInfo_fields by simp
qed

text \<open>C10 at scenario C, whose single record requests 2 hosts of 2 usable.\<close>

theorem allocate_hosts_fit_witness:
  "(let r = \<lparr>network = ''192.168.1.0'', prefix = 30, cidr = ''192.168.1.0/30'',
              subnet_mask = ''255.255.255.252'', wildcard_mask = ''0.0.0.3'',
              total_addresses = 4, usable_hosts = 2, requested_hosts = 2,
              first_usable = ''192.168.1.1'', last_usable = ''192.168.1.2'',
              broadcast = ''192.168.1.3'', wasted_addresses = 2\<rparr>
    in allocateVlsm ''192.168.1.0/30'' [Num 2] = Inr [r]
       \<and> requested_hosts r \<le> usable_hosts r
       \<and> wasted_addresses r = total_addresses r - requested_hosts r
       \<and> 0 \<le> wasted_addresses r)"
  using scenario_C
    allocate_hosts_fit[OF scenario_C, of
      "\<lparr>network = ''192.168.1.0'', prefix = 30, cidr = ''192.168.1.0/30'',
         subnet_mask = ''255.255.255.252'', wildcard_mask = ''0.0.0.3'',
         total_addresses = 4, usable_hosts = 2, requested_hosts = 2,
         first_usable = ''192.168.1.1'', last_usable = ''192.168.1.2'',
         broadcast = ''192.168.1.3'', wasted_addresses = 2\<rparr>"]
  unfolding Let_def by simp

end
